theory Spec2Isabelle
  imports Complex_Main "HOL-Library.AList"
begin

section \<open>Coordinates, cells and object maps\<close>

text \<open>
  Modelled from the spec: the coordinate module (\<^verbatim>\<open>js/xy.js\<close>, loaded by
  \<^verbatim>\<open>index.html\<close>) is not among the sources. The data model describes a
  coordinate as an immutable integer pair with structural equality whose arithmetic
  produces new values, and asks for a collision-free key encoding. A coordinate is
  therefore a pair of integers, \<^verbatim>\<open>new XY()\<close> is the origin, and the key
  under which a JavaScript object stores a coordinate is the pair itself.
\<close>

type_synonym XY = "int \<times> int"

definition XY_plus :: "XY \<Rightarrow> XY \<Rightarrow> XY" where
  "XY_plus a b = (fst a + fst b, snd a + snd b)"

definition XY_minus :: "XY \<Rightarrow> XY \<Rightarrow> XY" where
  "XY_minus a b = (fst a - fst b, snd a - snd b)"

text \<open>
  \<^verbatim>\<open>Game.Cell\<close> (\<^verbatim>\<open>cell.js\<close>): position, piece type and piece set.
  The DOM node of a cell is presentation and is left out.
\<close>

record Cell =
  cell_xy :: XY
  cell_type :: string
  cell_pieceSet :: string

text \<open>
  A JavaScript object used as a dictionary keeps its string keys in insertion order:
  assigning to a present key replaces the value in place, assigning to an absent key
  appends. This is \<^const>\<open>AList.update\<close> on an association list; \<^verbatim>\<open>for (p in obj)\<close>
  walks the list from the front.
\<close>

type_synonym cellmap = "(XY \<times> Cell) list"

section \<open>Pieces (\<^verbatim>\<open>Game.Piece\<close>)\<close>

record PieceDef =
  avail :: int
  def_cells :: "XY list"

definition DEF_left :: "string \<Rightarrow> PieceDef option" where
  "DEF_left t =
     (if t = ''s'' then Some \<lparr>avail = 10, def_cells = [(0, 0), (1, 0), (0, -1), (-1, -1)]\<rparr>
      else if t = ''-'' then Some \<lparr>avail = 2, def_cells = [(0, 0), (-1, 0)]\<rparr>
      else if t = ''t'' then Some \<lparr>avail = 10, def_cells = [(0, 0), (-1, 0), (1, 0), (0, -1)]\<rparr>
      else if t = ''u'' then
        Some \<lparr>avail = 10, def_cells = [(0, 0), (-1, 0), (-1, 1), (1, 0), (1, -1)]\<rparr>
      else None)"

definition DEF_right :: "string \<Rightarrow> PieceDef option" where
  "DEF_right t =
     (if t = ''o'' then Some \<lparr>avail = 25, def_cells = [(0, 0), (-1, 0), (0, -1), (-1, -1)]\<rparr>
      else if t = ''i'' then Some \<lparr>avail = 25, def_cells = [(0, 0), (-1, 0), (1, 0), (-2, 0)]\<rparr>
      else if t = ''t'' then Some \<lparr>avail = 3, def_cells = [(0, 0), (-1, 0), (1, 0), (0, -1)]\<rparr>
      else if t = ''-'' then Some \<lparr>avail = 25, def_cells = [(0, 0), (-1, 0)]\<rparr>
      else None)"

definition DEF :: "string \<Rightarrow> (string \<Rightarrow> PieceDef option) option" where
  "DEF pieceSet =
     (if pieceSet = ''left'' then Some DEF_left
      else if pieceSet = ''right'' then Some DEF_right
      else None)"

datatype error =
    TypeError
  | PieceDoesNotExist string string

record Piece =
  piece_type :: string
  piece_pieceSet :: string
  piece_xy :: XY
  piece_cells :: cellmap

text \<open>
  The constructor. Reading \<^verbatim>\<open>DEF[pieceSet][type]\<close> for an unknown set is a
  TypeError of the runtime; an unknown type in a known set is the explicit throw. The random
  \<^verbatim>\<open>id\<close> (network play) and the DOM node are left out.
\<close>

definition new_Piece :: "string \<Rightarrow> string \<Rightarrow> error + Piece" where
  "new_Piece type pieceSet =
     (case DEF pieceSet of
        None \<Rightarrow> Inl TypeError
      | Some defs \<Rightarrow>
          (case defs type of
             None \<Rightarrow> Inl (PieceDoesNotExist type pieceSet)
           | Some d \<Rightarrow>
               Inr \<lparr>piece_type = type, piece_pieceSet = pieceSet, piece_xy = (0, 0),
                    piece_cells =
                      fold (\<lambda>xy cells.
                              AList.update xy
                                \<lparr>cell_xy = xy, cell_type = type, cell_pieceSet = pieceSet\<rparr> cells)
                        (def_cells d) []\<rparr>))"

text \<open>
  \<^verbatim>\<open>rotate(direction)\<close>: every cell object gets the new offset and is stored
  under it in a fresh map. The offset is read from the cell, not from the old key.
\<close>

definition rotate_xy :: "XY \<Rightarrow> XY \<Rightarrow> XY" where
  "rotate_xy sign xy = (snd xy * fst sign, fst xy * snd sign)"

definition rotate_sign :: "int \<Rightarrow> XY" where
  "rotate_sign direction = (if direction > 0 then (-1, 1) else (1, -1))"

definition rotate_piece :: "int \<Rightarrow> Piece \<Rightarrow> Piece" where
  "rotate_piece direction piece =
     (let sign = rotate_sign direction in
      piece\<lparr>piece_cells :=
        fold (\<lambda>(p, cell) newCells.
                let nxy = rotate_xy sign (cell_xy cell)
                in AList.update nxy (cell\<lparr>cell_xy := nxy\<rparr>) newCells)
          (piece_cells piece) []\<rparr>)"

text \<open>
  The rotation as the specification words it, for comparison: one factor \<open>s\<close> on both
  components, \<open>(x, y) \<mapsto> (y\<cdot>s, x\<cdot>s)\<close>.
\<close>

definition spec_rotate_xy :: "int \<Rightarrow> XY \<Rightarrow> XY" where
  "spec_rotate_xy s xy = (snd xy * s, fst xy * s)"

definition offsets :: "Piece \<Rightarrow> XY list" where
  "offsets piece = map (\<lambda>(p, cell). cell_xy cell) (piece_cells piece)"

text \<open>
  The comment of \<^verbatim>\<open>rotate\<close> reads "Positive for clockwise, negative for counter", so
  a positive direction selects \<open>s = -1\<close> in the specification's formula.
\<close>

definition spec_s :: "int \<Rightarrow> int" where
  "spec_s direction = (if direction > 0 then -1 else 1)"

definition spec_offsets :: "int \<Rightarrow> Piece \<Rightarrow> XY list" where
  "spec_offsets direction piece = map (spec_rotate_xy (spec_s direction)) (offsets piece)"

text \<open>The attacker's \<^verbatim>\<open>s\<close> piece, as the constructor builds it.\<close>

definition s_left :: Piece where
  "s_left = projr (new_Piece ''s'' ''left'')"

text \<open>\<^verbatim>\<open>center()\<close> and the value view of \<^verbatim>\<open>clone()\<close>.\<close>

definition WIDTH :: int where
  "WIDTH = 10"

definition DEPTH :: int where
  "DEPTH = 16"

definition center :: "Piece \<Rightarrow> Piece" where
  "center piece = piece\<lparr>piece_xy := (WIDTH div 2, DEPTH - 1)\<rparr>"

definition Cell_clone :: "Cell \<Rightarrow> Cell" where
  "Cell_clone cell =
     \<lparr>cell_xy = cell_xy cell, cell_type = cell_type cell, cell_pieceSet = cell_pieceSet cell\<rparr>"

definition Piece_clone :: "Piece \<Rightarrow> error + Piece" where
  "Piece_clone piece =
     (case new_Piece (piece_type piece) (piece_pieceSet piece) of
        Inl e \<Rightarrow> Inl e
      | Inr clone \<Rightarrow>
          Inr (clone\<lparr>piece_xy := piece_xy piece,
                     piece_cells :=
                       fold (\<lambda>(p, cell) cells. AList.update p (Cell_clone cell) cells)
                         (piece_cells piece) []\<rparr>))"

section \<open>The pit (\<^verbatim>\<open>Game.Pit\<close>)\<close>

text \<open>
  The pit holds the occupancy map \<^verbatim>\<open>cells\<close> and the two arrays \<^verbatim>\<open>cols\<close> and
  \<^verbatim>\<open>rows\<close>. The DOM node is left out: the model is the pit as \<^verbatim>\<open>new Game.Pit()\<close>
  and \<^verbatim>\<open>clone()\<close> make it, the one every search runs on. (With a node,
  \<^verbatim>\<open>_cleanup\<close> hands the same \<^verbatim>\<open>_removeCompletedRows\<close> call to a timer.)
\<close>

record Pit =
  pit_cells :: cellmap
  pit_cols :: "int list"
  pit_rows :: "int list"

definition new_Pit :: Pit where
  "new_Pit =
     \<lparr>pit_cells = [], pit_cols = replicate (nat WIDTH) 0, pit_rows = replicate (nat DEPTH) 0\<rparr>"

definition Pit_clone :: "Pit \<Rightarrow> Pit" where
  "Pit_clone pit =
     \<lparr>pit_cells =
        fold (\<lambda>(p, cell) cells. AList.update p (Cell_clone cell) cells) (pit_cells pit) [],
      pit_cols = pit_cols pit,
      pit_rows = pit_rows pit\<rparr>"

text \<open>\<^verbatim>\<open>Piece.fits(pit)\<close>: the loop returns false at the first offending cell.\<close>

definition fits :: "Piece \<Rightarrow> Pit \<Rightarrow> bool" where
  "fits piece pit =
     list_all
       (\<lambda>(p, cell).
          let xy = XY_plus (cell_xy cell) (piece_xy piece)
          in \<not> (fst xy < 0 \<or> fst xy \<ge> WIDTH) \<and> \<not> snd xy < 0
             \<and> map_of (pit_cells pit) xy = None)
       (piece_cells piece)"

text \<open>
  \<^verbatim>\<open>while (piece.fits(pit)) { piece.xy = piece.xy.plus(d); }\<close>, the loop of
  \<^verbatim>\<open>drop\<close> (with gravity) and of \<^verbatim>\<open>findBestPosition\<close> (leftwards). A piece without
  cells fits everywhere and the loop never ends: the result is then \<open>None\<close>.
\<close>

partial_function (option) while_fits :: "XY \<Rightarrow> Pit \<Rightarrow> Piece \<Rightarrow> Piece option" where
  "while_fits d pit piece =
     (if fits piece pit
      then while_fits d pit (piece\<lparr>piece_xy := XY_plus (piece_xy piece) d\<rparr>)
      else Some piece)"

declare while_fits.simps [code]

text \<open>
  Array writes. \<^verbatim>\<open>a[i] = f(a[i])\<close> inside the array is a list update. Outside the array
  JavaScript reads \<^verbatim>\<open>undefined\<close> and stores a \<^verbatim>\<open>NaN\<close>; integer lists have no
  such value, and the model has no result there (\<open>None\<close>).
\<close>

definition arr_upd :: "int list \<Rightarrow> int \<Rightarrow> (int \<Rightarrow> int) \<Rightarrow> int list option" where
  "arr_upd a i f =
     (if 0 \<le> i \<and> i < int (length a) then Some (a[nat i := f (a ! nat i)]) else None)"

text \<open>
  \<^verbatim>\<open>_removeCompletedRows(completedRows)\<close>. The comparator \<^verbatim>\<open>(a, b) => b - a\<close> sorts
  the row numbers in descending order. The \<^verbatim>\<open>forEach\<close> body removes one counter, appends
  a zero, resets \<^verbatim>\<open>cols\<close> and deletes the cells of that row; the last loop shifts every
  cell above the lowest removed row by the number of removed rows, stores it under its new
  key and raises the column height.
\<close>

definition remove_row :: "nat \<Rightarrow> Pit \<Rightarrow> Pit" where
  "remove_row j pit =
     pit\<lparr>pit_rows := take j (pit_rows pit) @ drop (Suc j) (pit_rows pit) @ [0],
         pit_cols := map (\<lambda>_. 0) (pit_cols pit),
         pit_cells := filter (\<lambda>(p, cell). snd (cell_xy cell) \<noteq> int j) (pit_cells pit)\<rparr>"

definition shift_cell ::
  "nat list \<Rightarrow> int \<Rightarrow> XY \<times> Cell \<Rightarrow> (cellmap \<times> int list) option
     \<Rightarrow> (cellmap \<times> int list) option" where
  "shift_cell completedRows totalShift pc acc =
     (case acc of
        None \<Rightarrow> None
      | Some (newCells, cols) \<Rightarrow>
          let cell = snd pc;
              xy = cell_xy cell;
              above = (completedRows \<noteq> [] \<and> snd xy > int (last completedRows));
              xy = (if above then (fst xy, snd xy - totalShift) else xy);
              cell = (if above then cell\<lparr>cell_xy := xy\<rparr> else cell)
          in (case arr_upd cols (fst xy) (\<lambda>h. max h (snd xy + 1)) of
                None \<Rightarrow> None
              | Some cols' \<Rightarrow> Some (AList.update xy cell newCells, cols')))"

definition removeCompletedRows :: "nat list \<Rightarrow> Pit \<Rightarrow> Pit option" where
  "removeCompletedRows completedRows0 pit0 =
     (let completedRows = rev (sort completedRows0);
          pit = fold remove_row completedRows pit0;
          totalShift = int (length completedRows)
      in (case fold (shift_cell completedRows totalShift) (pit_cells pit)
                 (Some ([], pit_cols pit)) of
            None \<Rightarrow> None
          | Some (newCells, cols) \<Rightarrow> Some (pit\<lparr>pit_cells := newCells, pit_cols := cols\<rparr>)))"

text \<open>
  \<^verbatim>\<open>_cleanup()\<close> collects the rows whose counter equals \<^verbatim>\<open>WIDTH\<close>, removes them
  when there is one, and returns their number.
\<close>

definition completed :: "Pit \<Rightarrow> nat list" where
  "completed pit =
     filter (\<lambda>j. j < length (pit_rows pit) \<and> pit_rows pit ! j = WIDTH) [0..<nat DEPTH]"

definition cleanup :: "Pit \<Rightarrow> (int \<times> Pit) option" where
  "cleanup pit =
     (let completedRows = completed pit;
          result = int (length completedRows)
      in if length completedRows > 0
         then (case removeCompletedRows completedRows pit of
                 None \<Rightarrow> None
               | Some pit' \<Rightarrow> Some (result, pit'))
         else Some (result, pit))"

text \<open>
  \<^verbatim>\<open>drop(piece)\<close>: the piece falls while it fits and steps back once; each of its cells
  is stored under its absolute coordinate, and below \<^verbatim>\<open>DEPTH\<close> the row counter and
  the column height are updated; then \<^verbatim>\<open>_cleanup\<close> runs. The result is the returned
  number and the pit afterwards. (The callers discard the piece after the call.)
\<close>

definition gravity :: XY where
  "gravity = (0, -1)"

definition lock_cell :: "XY \<Rightarrow> XY \<times> Cell \<Rightarrow> Pit option \<Rightarrow> Pit option" where
  "lock_cell pxy pc acc =
     (case acc of
        None \<Rightarrow> None
      | Some pit \<Rightarrow>
          let cell = snd pc;
              xy = XY_plus pxy (cell_xy cell);
              pit1 = pit\<lparr>pit_cells := AList.update xy (cell\<lparr>cell_xy := xy\<rparr>) (pit_cells pit)\<rparr>
          in if snd xy < DEPTH
             then (case arr_upd (pit_rows pit1) (snd xy) (\<lambda>n. n + 1) of
                     None \<Rightarrow> None
                   | Some rows \<Rightarrow>
                       (case arr_upd (pit_cols pit1) (fst xy) (\<lambda>h. max h (snd xy + 1)) of
                          None \<Rightarrow> None
                        | Some cols \<Rightarrow> Some (pit1\<lparr>pit_rows := rows, pit_cols := cols\<rparr>)))
             else Some pit1)"

definition landed :: "Pit \<Rightarrow> Piece \<Rightarrow> Piece option" where
  "landed pit piece =
     (case while_fits gravity pit piece of
        None \<Rightarrow> None
      | Some piece' \<Rightarrow> Some (piece'\<lparr>piece_xy := XY_minus (piece_xy piece') gravity\<rparr>))"

definition lock :: "Pit \<Rightarrow> Piece \<Rightarrow> Pit option" where
  "lock pit piece = fold (lock_cell (piece_xy piece)) (piece_cells piece) (Some pit)"

definition locked :: "Pit \<Rightarrow> Piece \<Rightarrow> Pit option" where
  "locked pit piece =
     (case landed pit piece of
        None \<Rightarrow> None
      | Some piece' \<Rightarrow> lock pit piece')"

definition drop_piece :: "Pit \<Rightarrow> Piece \<Rightarrow> (int \<times> Pit) option" where
  "drop_piece pit piece =
     (case locked pit piece of
        None \<Rightarrow> None
      | Some pit' \<Rightarrow> cleanup pit')"

text \<open>
  What \<^verbatim>\<open>drop\<close> hands back to its caller is the counter \<^verbatim>\<open>result\<close> of
  \<^verbatim>\<open>_cleanup\<close>, a JavaScript number; the array \<^verbatim>\<open>completedRows\<close> stays local.
\<close>

datatype jsval = Number int | Array "int list"

definition drop_return :: "Pit \<Rightarrow> Piece \<Rightarrow> jsval option" where
  "drop_return pit piece =
     (case drop_piece pit piece of
        None \<Rightarrow> None
      | Some (result, pit') \<Rightarrow> Some (Number result))"

text \<open>
  \<^verbatim>\<open>getScore()\<close>. One loop over the cells counts cells, holes and weight, one loop over
  the columns sums and maximises the height differences. \<^verbatim>\<open>Math.max\<close> of no column is
  \<^verbatim>\<open>-Infinity\<close>.
\<close>

datatype jsnum = NegInfinity | Num int | Infinity

fun js_less :: "jsnum \<Rightarrow> jsnum \<Rightarrow> bool" where
  "js_less (Num a) (Num b) = (a < b)"
| "js_less NegInfinity b = (b \<noteq> NegInfinity)"
| "js_less a Infinity = (a \<noteq> Infinity)"
| "js_less a b = False"

definition score_cell :: "Pit \<Rightarrow> XY \<times> Cell \<Rightarrow> int \<times> int \<times> int \<Rightarrow> int \<times> int \<times> int" where
  "score_cell pit pc acc =
     (case acc of (cells, holes, weight) \<Rightarrow>
        let xy = cell_xy (snd pc);
            below = (fst xy, snd xy - 1)
        in (cells + 1,
            (if snd below \<ge> 0 \<and> map_of (pit_cells pit) below = None then holes + 1 else holes),
            weight + (snd xy + 1)))"

definition score_col :: "int list \<Rightarrow> nat \<Rightarrow> int \<times> int \<Rightarrow> int \<times> int" where
  "score_col cols i acc =
     (case acc of (slope, maxslope) \<Rightarrow>
        let diff = \<bar>cols ! i - cols ! (i + 1)\<bar>
        in (slope + diff, max maxslope diff))"

definition getScore :: "Pit \<Rightarrow> jsnum" where
  "getScore pit =
     (case pit_cols pit of
        [] \<Rightarrow> NegInfinity
      | c # cs \<Rightarrow>
          (let mx = fold max cs c;
               (cells, holes, weight) = fold (score_cell pit) (pit_cells pit) (0, 0, 0);
               (slope, maxslope) =
                  fold (score_col (pit_cols pit)) [0..<length (pit_cols pit) - 1] (0, 0)
           in Num (20 * holes + 1 * mx + 1 * cells + 1 * maxslope + 1 * slope + 1 * weight)))"

section \<open>Notions used to state the properties\<close>

text \<open>
  The caches read back from the occupancy map alone: the number of entries per row below
  \<^verbatim>\<open>DEPTH\<close>, and per column one plus the largest occupied \<open>y\<close> (zero for an empty
  column).
\<close>

definition rows_of :: "cellmap \<Rightarrow> int list" where
  "rows_of cs = map (\<lambda>y. int (length (filter (\<lambda>(p, c). snd p = int y) cs))) [0..<nat DEPTH]"

definition cols_of :: "cellmap \<Rightarrow> int list" where
  "cols_of cs =
     map (\<lambda>x. fold max (map (\<lambda>(p, c). snd p + 1) (filter (\<lambda>(p, c). fst p = int x) cs)) 0)
       [0..<nat WIDTH]"

definition rows_ok :: "Pit \<Rightarrow> bool" where
  "rows_ok pit \<longleftrightarrow> pit_rows pit = rows_of (pit_cells pit)"

definition cols_ok :: "Pit \<Rightarrow> bool" where
  "cols_ok pit \<longleftrightarrow> pit_cols pit = cols_of (pit_cells pit)"

text \<open>
  A well-formed occupancy map: the keys are pairwise different, every cell sits under its
  own coordinate, inside the side walls and not below the floor. \<open>below_DEPTH\<close> adds the
  upper bound that \<^verbatim>\<open>fits\<close> does not impose.
\<close>

definition wf_cells :: "cellmap \<Rightarrow> bool" where
  "wf_cells cs \<longleftrightarrow>
     distinct (map fst cs)
     \<and> list_all (\<lambda>(p, c). cell_xy c = p \<and> 0 \<le> fst p \<and> fst p < WIDTH \<and> 0 \<le> snd p) cs"

definition below_DEPTH :: "cellmap \<Rightarrow> bool" where
  "below_DEPTH cs \<longleftrightarrow> list_all (\<lambda>(p, c). snd p < DEPTH) cs"

text \<open>The rows of which every one of the \<^verbatim>\<open>WIDTH\<close> cells is occupied.\<close>

definition full_rows :: "cellmap \<Rightarrow> nat list" where
  "full_rows cs =
     filter (\<lambda>j. list_all (\<lambda>x. map_of cs (int x, int j) \<noteq> None) [0..<nat WIDTH])
       [0..<nat DEPTH]"

text \<open>
  A piece moved \<open>n\<close> steps in direction \<open>d\<close>; the entry a piece cell leaves in the pit;
  the cell a surviving cell becomes in the last loop of \<^verbatim>\<open>_removeCompletedRows\<close>
  (\<open>shifted\<close>, as the code computes it; \<open>shift_down\<close>, what that is for a well-formed
  map when the rows \<open>lo, \<dots>, lo + k - 1\<close> are removed).
\<close>

definition moved :: "XY \<Rightarrow> nat \<Rightarrow> Piece \<Rightarrow> Piece" where
  "moved d n piece =
     piece\<lparr>piece_xy := (fst (piece_xy piece) + int n * fst d, snd (piece_xy piece) + int n * snd d)\<rparr>"

definition absolute :: "XY \<Rightarrow> XY \<times> Cell \<Rightarrow> XY \<times> Cell" where
  "absolute pxy pc =
     (XY_plus pxy (cell_xy (snd pc)), (snd pc)\<lparr>cell_xy := XY_plus pxy (cell_xy (snd pc))\<rparr>)"

definition shifted :: "nat list \<Rightarrow> int \<Rightarrow> XY \<times> Cell \<Rightarrow> XY \<times> Cell" where
  "shifted js k pc =
     (let xy = cell_xy (snd pc)
      in if js \<noteq> [] \<and> snd xy > int (last js)
         then ((fst xy, snd xy - k), (snd pc)\<lparr>cell_xy := (fst xy, snd xy - k)\<rparr>)
         else (xy, snd pc))"

definition shift_down :: "nat \<Rightarrow> nat \<Rightarrow> XY \<times> Cell \<Rightarrow> XY \<times> Cell" where
  "shift_down lo k pc =
     (if snd (fst pc) > int lo
      then ((fst (fst pc), snd (fst pc) - int k),
            (snd pc)\<lparr>cell_xy := (fst (fst pc), snd (fst pc) - int k)\<rparr>)
      else pc)"

text \<open>Row numbers in ascending order without a gap.\<close>

fun adjacent :: "nat list \<Rightarrow> bool" where
  "adjacent [] = True"
| "adjacent (j # js) = (js = [Suc j..<Suc j + length js])"

text \<open>
  Sequences of drops from a given pit. Each piece is handed over in a position where it
  fits, as every caller of \<^verbatim>\<open>drop\<close> does; \<open>ok\<close> may ask for more.
\<close>

fun drops :: "(Pit \<Rightarrow> Piece \<Rightarrow> bool) \<Rightarrow> Piece list \<Rightarrow> Pit \<Rightarrow> Pit option" where
  "drops ok [] pit = Some pit"
| "drops ok (piece # ps) pit =
     (if fits piece pit \<and> ok pit piece
      then (case drop_piece pit piece of None \<Rightarrow> None | Some (r, pit') \<Rightarrow> drops ok ps pit')
      else None)"

definition any_drop :: "Pit \<Rightarrow> Piece \<Rightarrow> bool" where
  "any_drop pit piece = True"

text \<open>
  A drop that stays inside the pit and removes adjacent rows only: the piece has pairwise
  different offsets, comes to rest entirely below \<^verbatim>\<open>DEPTH\<close>, and the rows it
  completes have no gap between them.
\<close>

definition plain_drop :: "Pit \<Rightarrow> Piece \<Rightarrow> bool" where
  "plain_drop pit piece \<longleftrightarrow>
     distinct (offsets piece)
     \<and> (case landed pit piece of
          None \<Rightarrow> False
        | Some piece' \<Rightarrow> below_DEPTH (map (absolute (piece_xy piece')) (piece_cells piece')))
     \<and> (case locked pit piece of
          None \<Rightarrow> False
        | Some pit1 \<Rightarrow> adjacent (completed pit1))"

text \<open>
  Example pieces and pits. A piece of a type and set, turned \<open>n\<close> times by
  \<^verbatim>\<open>rotate(+1)\<close> and moved to a position (\<^verbatim>\<open>Engine.drop\<close> lets the piece fall
  to where it comes to rest before it hands it to the pit); the cells a locked piece
  leaves in the pit.
\<close>

definition piece_at :: "string \<Rightarrow> string \<Rightarrow> nat \<Rightarrow> XY \<Rightarrow> Piece" where
  "piece_at t s n xy = ((rotate_piece 1 ^^ n) (projr (new_Piece t s)))\<lparr>piece_xy := xy\<rparr>"

definition cells_at :: "string \<Rightarrow> string \<Rightarrow> XY list \<Rightarrow> cellmap" where
  "cells_at t s xys = map (\<lambda>xy. (xy, \<lparr>cell_xy = xy, cell_type = t, cell_pieceSet = s\<rparr>)) xys"

text \<open>
  Ten defender pieces that leave rows 1 and 3 with nine cells and rows 0 and 2 with
  seven, column 9 empty (\<open>gapped_pit\<close>); an upright \<^verbatim>\<open>i\<close> in column 9 then completes
  rows 1 and 3 but not row 2 (\<open>gapped_locked\<close> after the lock, \<open>gapped_cleared\<close> after
  the clearing step).
\<close>

definition gapped_pieces :: "Piece list" where
  "gapped_pieces =
     [piece_at ''i'' ''right'' 0 (2, 0), piece_at ''-'' ''right'' 0 (5, 0),
      piece_at ''i'' ''right'' 0 (2, 1), piece_at ''-'' ''right'' 0 (5, 1),
      piece_at ''t'' ''right'' 0 (7, 1),
      piece_at ''i'' ''right'' 0 (2, 2), piece_at ''-'' ''right'' 0 (5, 2),
      piece_at ''i'' ''right'' 0 (2, 3), piece_at ''-'' ''right'' 0 (5, 3),
      piece_at ''t'' ''right'' 0 (7, 3)]"

definition upright_i :: Piece where
  "upright_i = piece_at ''i'' ''right'' 1 (9, 2)"

definition gapped_pit :: Pit where
  "gapped_pit =
     \<lparr>pit_cells =
        cells_at ''i'' ''right'' [(2, 0), (1, 0), (3, 0), (0, 0)] @
        cells_at ''-'' ''right'' [(5, 0), (4, 0)] @
        cells_at ''i'' ''right'' [(2, 1), (1, 1), (3, 1), (0, 1)] @
        cells_at ''-'' ''right'' [(5, 1), (4, 1)] @
        cells_at ''t'' ''right'' [(7, 1), (6, 1), (8, 1), (7, 0)] @
        cells_at ''i'' ''right'' [(2, 2), (1, 2), (3, 2), (0, 2)] @
        cells_at ''-'' ''right'' [(5, 2), (4, 2)] @
        cells_at ''i'' ''right'' [(2, 3), (1, 3), (3, 3), (0, 3)] @
        cells_at ''-'' ''right'' [(5, 3), (4, 3)] @
        cells_at ''t'' ''right'' [(7, 3), (6, 3), (8, 3), (7, 2)],
      pit_cols = [4, 4, 4, 4, 4, 4, 4, 4, 4, 0],
      pit_rows = [7, 9, 7, 9] @ replicate 12 0\<rparr>"

definition gapped_locked :: Pit where
  "gapped_locked =
     \<lparr>pit_cells =
        cells_at ''i'' ''right'' [(2, 0), (1, 0), (3, 0), (0, 0)] @
        cells_at ''-'' ''right'' [(5, 0), (4, 0)] @
        cells_at ''i'' ''right'' [(2, 1), (1, 1), (3, 1), (0, 1)] @
        cells_at ''-'' ''right'' [(5, 1), (4, 1)] @
        cells_at ''t'' ''right'' [(7, 1), (6, 1), (8, 1), (7, 0)] @
        cells_at ''i'' ''right'' [(2, 2), (1, 2), (3, 2), (0, 2)] @
        cells_at ''-'' ''right'' [(5, 2), (4, 2)] @
        cells_at ''i'' ''right'' [(2, 3), (1, 3), (3, 3), (0, 3)] @
        cells_at ''-'' ''right'' [(5, 3), (4, 3)] @
        cells_at ''t'' ''right'' [(7, 3), (6, 3), (8, 3), (7, 2)] @
        cells_at ''i'' ''right'' [(9, 2), (9, 1), (9, 3), (9, 0)],
      pit_cols = [4, 4, 4, 4, 4, 4, 4, 4, 4, 4],
      pit_rows = [8, 10, 8, 10] @ replicate 12 0\<rparr>"

definition gapped_cleared :: Pit where
  "gapped_cleared =
     \<lparr>pit_cells =
        cells_at ''i'' ''right'' [(2, 0), (1, 0), (3, 0), (0, 0)] @
        cells_at ''-'' ''right'' [(5, 0), (4, 0)] @
        cells_at ''t'' ''right'' [(7, 0)] @
        cells_at ''i'' ''right'' [(9, 0)],
      pit_cols = [1, 1, 1, 1, 1, 1, 0, 1, 0, 1],
      pit_rows = [8, 8] @ replicate 14 0\<rparr>"

text \<open>
  Seven upright attacker \<^verbatim>\<open>-\<close> pieces in column 6 reach up to row 13; the
  \<^verbatim>\<open>u\<close> piece spawned at the centre of the top row then cannot fall and is locked
  where it is, with one cell in row 16 (\<open>tower_pit\<close>).
\<close>

definition tower_pieces :: "Piece list" where
  "tower_pieces =
     [piece_at ''-'' ''left'' 1 (6, 1), piece_at ''-'' ''left'' 1 (6, 3),
      piece_at ''-'' ''left'' 1 (6, 5), piece_at ''-'' ''left'' 1 (6, 7),
      piece_at ''-'' ''left'' 1 (6, 9), piece_at ''-'' ''left'' 1 (6, 11),
      piece_at ''-'' ''left'' 1 (6, 13),
      center (piece_at ''u'' ''left'' 0 (0, 0))]"

definition tower_pit :: Pit where
  "tower_pit =
     \<lparr>pit_cells =
        cells_at ''-'' ''left'' [(6, 1), (6, 0)] @
        cells_at ''-'' ''left'' [(6, 3), (6, 2)] @
        cells_at ''-'' ''left'' [(6, 5), (6, 4)] @
        cells_at ''-'' ''left'' [(6, 7), (6, 6)] @
        cells_at ''-'' ''left'' [(6, 9), (6, 8)] @
        cells_at ''-'' ''left'' [(6, 11), (6, 10)] @
        cells_at ''-'' ''left'' [(6, 13), (6, 12)] @
        cells_at ''u'' ''left'' [(5, 15), (4, 15), (4, 16), (6, 15), (6, 14)],
      pit_cols = [0, 0, 0, 0, 16, 16, 16, 0, 0, 0],
      pit_rows = [1, 1, 1, 1, 1, 1, 1, 1, 1, 1, 1, 1, 1, 1, 1, 3]\<rparr>"

text \<open>
  Four \<^verbatim>\<open>o\<close> pieces side by side with a \<^verbatim>\<open>t\<close> on top of the first (\<open>o_pit\<close>),
  and the fifth \<^verbatim>\<open>o\<close> that completes rows 0 and 1 (\<open>o_locked\<close> after the lock,
  \<open>o_cleared\<close> after the clearing step).
\<close>

definition o_pieces :: "Piece list" where
  "o_pieces =
     [piece_at ''o'' ''right'' 0 (1, 1), piece_at ''o'' ''right'' 0 (3, 1),
      piece_at ''o'' ''right'' 0 (5, 1), piece_at ''o'' ''right'' 0 (7, 1),
      piece_at ''t'' ''right'' 0 (1, 3)]"

definition last_o :: Piece where
  "last_o = piece_at ''o'' ''right'' 0 (9, 1)"

definition o_pit :: Pit where
  "o_pit =
     \<lparr>pit_cells =
        cells_at ''o'' ''right'' [(1, 1), (0, 1), (1, 0), (0, 0)] @
        cells_at ''o'' ''right'' [(3, 1), (2, 1), (3, 0), (2, 0)] @
        cells_at ''o'' ''right'' [(5, 1), (4, 1), (5, 0), (4, 0)] @
        cells_at ''o'' ''right'' [(7, 1), (6, 1), (7, 0), (6, 0)] @
        cells_at ''t'' ''right'' [(1, 3), (0, 3), (2, 3), (1, 2)],
      pit_cols = [4, 4, 4, 2, 2, 2, 2, 2, 0, 0],
      pit_rows = [8, 8, 1, 3] @ replicate 12 0\<rparr>"

definition o_locked :: Pit where
  "o_locked =
     \<lparr>pit_cells =
        cells_at ''o'' ''right'' [(1, 1), (0, 1), (1, 0), (0, 0)] @
        cells_at ''o'' ''right'' [(3, 1), (2, 1), (3, 0), (2, 0)] @
        cells_at ''o'' ''right'' [(5, 1), (4, 1), (5, 0), (4, 0)] @
        cells_at ''o'' ''right'' [(7, 1), (6, 1), (7, 0), (6, 0)] @
        cells_at ''t'' ''right'' [(1, 3), (0, 3), (2, 3), (1, 2)] @
        cells_at ''o'' ''right'' [(9, 1), (8, 1), (9, 0), (8, 0)],
      pit_cols = [4, 4, 4, 2, 2, 2, 2, 2, 2, 2],
      pit_rows = [10, 10, 1, 3] @ replicate 12 0\<rparr>"

definition o_cleared :: Pit where
  "o_cleared =
     \<lparr>pit_cells =
        cells_at ''t'' ''right'' [(1, 1), (0, 1), (2, 1), (1, 0)],
      pit_cols = [2, 2, 2, 0, 0, 0, 0, 0, 0, 0],
      pit_rows = [1, 3] @ replicate 14 0\<rparr>"

section \<open>The engine timers and the coordinator (\<^verbatim>\<open>Game.Engine\<close>, \<^verbatim>\<open>Game.App\<close>)\<close>

text \<open>
  The two engines of \<^verbatim>\<open>App._start\<close> and the state they share. An engine keeps its
  status (score, playing flag, id of its score element), the handle of its gravity timer, the
  pending drop timeout, the dropping flag, its piece and its pit. A timer handle is modelled by
  the period the timer was created with: \<^verbatim>\<open>setInterval(tick, Game.INTERVAL_ENGINE)\<close>
  yields \<open>Some\<close> of the value \<^verbatim>\<open>Game.INTERVAL_ENGINE\<close> has at that moment. The world
  holds the global \<^verbatim>\<open>Game.INTERVAL_ENGINE\<close>, both engines, the closure variable
  \<^verbatim>\<open>firstGameOver\<close> and the overlays shown so far (side and text).
\<close>

datatype side = LEFT | RIGHT

fun other :: "side \<Rightarrow> side" where
  "other LEFT = RIGHT"
| "other RIGHT = LEFT"

fun side_name :: "side \<Rightarrow> string" where
  "side_name LEFT = ''left''"
| "side_name RIGHT = ''right''"

record Engine =
  eng_score :: int
  eng_playing :: bool
  eng_scoreElementId :: string
  eng_interval :: "int option"
  eng_dropTimeout :: bool
  eng_dropping :: bool
  eng_piece :: "Piece option"
  eng_pit :: Pit

record World =
  INTERVAL_ENGINE :: int
  engineLeft :: Engine
  engineRight :: Engine
  firstGameOver :: "string option"
  overlays :: "(string \<times> string) list"

fun engine :: "side \<Rightarrow> World \<Rightarrow> Engine" where
  "engine LEFT w = engineLeft w"
| "engine RIGHT w = engineRight w"

fun set_engine :: "side \<Rightarrow> Engine \<Rightarrow> World \<Rightarrow> World" where
  "set_engine LEFT e w = w\<lparr>engineLeft := e\<rparr>"
| "set_engine RIGHT e w = w\<lparr>engineRight := e\<rparr>"

definition new_Engine :: "string \<Rightarrow> Engine" where
  "new_Engine sid =
     \<lparr>eng_score = 0, eng_playing = True, eng_scoreElementId = sid, eng_interval = None,
      eng_dropTimeout = False, eng_dropping = False, eng_piece = None, eng_pit = new_Pit\<rparr>"

definition new_World :: World where
  "new_World =
     \<lparr>INTERVAL_ENGINE = 1000,
      engineLeft = new_Engine ''score-left'',
      engineRight = new_Engine ''score-right'',
      firstGameOver = None,
      overlays = []\<rparr>"

text \<open>
  \<^verbatim>\<open>_start\<close>: nothing when the timer runs; otherwise a timer with the current global
  interval, and the global interval lowered by 5.
\<close>

definition start :: "side \<Rightarrow> World \<Rightarrow> World" where
  "start s w =
     (if eng_interval (engine s w) \<noteq> None then w
      else (set_engine s ((engine s w)\<lparr>eng_interval := Some (INTERVAL_ENGINE w)\<rparr>) w)
             \<lparr>INTERVAL_ENGINE := INTERVAL_ENGINE w - 5\<rparr>)"

text \<open>
  \<^verbatim>\<open>_stop\<close> clears both timers. \<open>freeze\<close> is \<^verbatim>\<open>_setPlaying\<close> up to the call of
  the callback: the flag is set, and when it is false the engine stops, drops its piece and
  resets the dropping flag.
\<close>

definition stop :: "Engine \<Rightarrow> Engine" where
  "stop e = e\<lparr>eng_interval := None, eng_dropTimeout := False\<rparr>"

definition freeze :: "bool \<Rightarrow> Engine \<Rightarrow> Engine" where
  "freeze p e =
     (let e = e\<lparr>eng_playing := p\<rparr>
      in if \<not> p then (stop e)\<lparr>eng_piece := None, eng_dropping := False\<rparr> else e)"

text \<open>
  \<^verbatim>\<open>handleGameOver\<close>, the callback both engines get. \<^verbatim>\<open>!firstGameOver\<close> holds for
  \<^verbatim>\<open>null\<close> and for the empty string. The two \<^verbatim>\<open>_setPlaying(false)\<close> calls inside
  call the handler again, each with the id of its engine; the recursion is written out, and a
  call chain that never ends has no result (\<open>None\<close>).
\<close>

definition falsy :: "string option \<Rightarrow> bool" where
  "falsy v \<longleftrightarrow> v = None \<or> v = Some []"

definition show_overlays :: "World \<Rightarrow> World" where
  "show_overlays w =
     w\<lparr>overlays := overlays w @
        [(if firstGameOver w = Some ''score-left'' then ''left'' else ''right'', ''LOSER''),
         (if firstGameOver w = Some ''score-left'' then ''right'' else ''left'', ''WINNER'')]\<rparr>"

partial_function (option) handleGameOver :: "string \<Rightarrow> World \<Rightarrow> World option" where
  "handleGameOver sid w =
     (if falsy (firstGameOver w)
      then
        (let w1 = w\<lparr>firstGameOver := Some sid\<rparr>;
             w2 = set_engine LEFT (freeze False (engine LEFT w1)) w1
         in Option.bind (handleGameOver (eng_scoreElementId (engine LEFT w2)) w2)
              (\<lambda>w3. let w4 = set_engine RIGHT (freeze False (engine RIGHT w3)) w3
                    in Option.bind (handleGameOver (eng_scoreElementId (engine RIGHT w4)) w4)
                         (\<lambda>w5. Some (show_overlays w5))))
      else Some w)"

declare handleGameOver.simps [code]

definition setPlaying :: "side \<Rightarrow> bool \<Rightarrow> World \<Rightarrow> World option" where
  "setPlaying s p w =
     (let w = set_engine s (freeze p (engine s w)) w
      in if \<not> p then handleGameOver (eng_scoreElementId (engine s w)) w else Some w)"

text \<open>
  What happens after a notification, one event at a time: a session starts its gravity
  timer (\<^verbatim>\<open>_start\<close>, which \<^verbatim>\<open>setNextType\<close> reaches through \<^verbatim>\<open>_useNextType\<close>
  whatever the playing flag is), a session sets its playing flag (\<^verbatim>\<open>_setPlaying\<close>), a
  notification arrives (the handler is called with an id), or a session changes its own
  engine in any other way (a tick, a drop, a rotation, a shift, a new score). Nothing but
  the handler writes \<^verbatim>\<open>firstGameOver\<close> or shows an overlay: the variable is local to
  \<^verbatim>\<open>App._start\<close>, and \<^verbatim>\<open>_showGameEndOverlay\<close> is called nowhere else.
\<close>

datatype event = Start side | SetPlaying side bool | Notify string | Session side Engine

fun happen :: "event \<Rightarrow> World \<Rightarrow> World option" where
  "happen (Start s) w = Some (start s w)"
| "happen (SetPlaying s p) w = setPlaying s p w"
| "happen (Notify sid) w = handleGameOver sid w"
| "happen (Session s e) w = Some (set_engine s e w)"

fun happens :: "event list \<Rightarrow> World \<Rightarrow> World option" where
  "happens [] w = Some w"
| "happens (ev # evs) w = (case happen ev w of None \<Rightarrow> None | Some w' \<Rightarrow> happens evs w')"

text \<open>Both sessions with a piece falling: the right one started first.\<close>

definition running_World :: World where
  "running_World = start LEFT (start RIGHT new_World)"

section \<open>Notions used to state the property of the score\<close>

text \<open>
  The summand of one cell in \<^verbatim>\<open>getScore\<close>: 20 when the cell directly below it is
  empty and not under the floor, 1 for the cell count, \<open>y + 1\<close> for the weight. The summand
  of the columns: the largest height, the largest and the summed height difference.
\<close>

definition hole_below :: "cellmap \<Rightarrow> XY \<times> Cell \<Rightarrow> bool" where
  "hole_below cs pc \<longleftrightarrow>
     snd (cell_xy (snd pc)) - 1 \<ge> 0
     \<and> map_of cs (fst (cell_xy (snd pc)), snd (cell_xy (snd pc)) - 1) = None"

definition cell_score :: "cellmap \<Rightarrow> XY \<times> Cell \<Rightarrow> int" where
  "cell_score cs pc =
     20 * (if hole_below cs pc then 1 else 0) + 1 + (snd (cell_xy (snd pc)) + 1)"

definition col_score :: "int list \<Rightarrow> int" where
  "col_score cols =
     (case cols of
        [] \<Rightarrow> 0
      | c # cs \<Rightarrow> fold max cs c
          + snd (fold (score_col cols) [0..<length cols - 1] (0, 0))
          + fst (fold (score_col cols) [0..<length cols - 1] (0, 0)))"

text \<open>
  A grid with one cell taken out and everything else as it is; and the holes of a grid as
  the specification defines them, the empty cells under an occupied cell of their column.
\<close>

definition remove_cell :: "XY \<Rightarrow> Pit \<Rightarrow> Pit" where
  "remove_cell xy pit = pit\<lparr>pit_cells := filter (\<lambda>(p, c). p \<noteq> xy) (pit_cells pit)\<rparr>"

definition spec_holes :: "cellmap \<Rightarrow> XY list" where
  "spec_holes cs =
     concat (map (\<lambda>x. map (\<lambda>y. (int x, int y))
                          (filter (\<lambda>y. map_of cs (int x, int y) = None)
                             [0..<nat (cols_of cs ! x)]))
               [0..<nat WIDTH])"

text \<open>Three cells on top of each other in column 0.\<close>

definition column_pit :: Pit where
  "column_pit =
     \<lparr>pit_cells = cells_at ''i'' ''right'' [(0, 2), (0, 1), (0, 0)],
      pit_cols = [3, 0, 0, 0, 0, 0, 0, 0, 0, 0],
      pit_rows = [1, 1, 1] @ replicate 13 0\<rparr>"

section \<open>The placement search (\<^verbatim>\<open>Game.AI\<close>)\<close>

text \<open>
  \<^verbatim>\<open>Array.prototype.random\<close> returns the element at the index
  \<^verbatim>\<open>Math.floor(Math.random() * this.length)\<close>. The number drawn is a parameter of the
  model. Reading an index that the array does not have gives \<^verbatim>\<open>undefined\<close>, here
  \<open>None\<close>: this is what an empty array gives for every draw.
\<close>

definition random :: "real \<Rightarrow> 'a list \<Rightarrow> 'a option" where
  "random u xs =
     (let i = \<lfloor>u * real (length xs)\<rfloor>
      in if 0 \<le> i \<and> i < int (length xs) then Some (xs ! nat i) else None)"

text \<open>
  The object \<^verbatim>\<open>{score, x}\<close> that \<^verbatim>\<open>findBestPosition\<close> returns, to which
  \<^verbatim>\<open>findBestPositionRotation\<close> adds the field \<^verbatim>\<open>rotation\<close>.
\<close>

record Best =
  best_score :: jsnum
  best_x :: "int option"
  best_rotation :: "nat option"

text \<open>
  The two \<^verbatim>\<open>if\<close> statements both searches run on a score: a strictly smaller score
  replaces the best one and empties the list of ties, and a score equal to the best one
  (after that update) appends its entry.
\<close>

definition better :: "jsnum \<Rightarrow> 'a \<Rightarrow> jsnum \<times> 'a list \<Rightarrow> jsnum \<times> 'a list" where
  "better score entry acc =
     (let bestScore = fst acc;
          best = snd acc;
          bestScore' = (if js_less score bestScore then score else bestScore);
          best' = (if js_less score bestScore then [] else best)
      in (bestScore', if score = bestScore' then best' @ [entry] else best'))"

text \<open>
  \<^verbatim>\<open>findBestPosition\<close>. The pit and the piece are cloned and the piece is centred.
  The first loop moves it by \<^verbatim>\<open>left\<close> while it fits, and one step back. The second loop,
  \<open>scan\<close>, runs while the piece fits: it drops a clone of the piece into a clone of the pit,
  scores the result, and moves the piece one column to the right. The returned \<^verbatim>\<open>x\<close>
  is a random element of the columns collected.
\<close>

definition left :: XY where
  "left = (-1, 0)"

partial_function (option) scan ::
  "Pit \<Rightarrow> Piece \<Rightarrow> jsnum \<times> int list \<Rightarrow> (error + jsnum \<times> int list) option" where
  "scan pit piece acc =
     (if fits piece pit
      then (case Piece_clone piece of
              Inl e \<Rightarrow> Some (Inl e)
            | Inr dropped \<Rightarrow>
                (case drop_piece (Pit_clone pit) dropped of
                   None \<Rightarrow> None
                 | Some res \<Rightarrow>
                     scan pit (piece\<lparr>piece_xy := XY_minus (piece_xy piece) left\<rparr>)
                       (better (getScore (snd res)) (fst (piece_xy piece)) acc)))
      else Some (Inr acc))"

declare scan.simps [code]

definition findBestPosition :: "real \<Rightarrow> Pit \<Rightarrow> Piece \<Rightarrow> (error + Best) option" where
  "findBestPosition u pit0 piece0 =
     (let pit = Pit_clone pit0
      in case Piece_clone piece0 of
           Inl e \<Rightarrow> Some (Inl e)
         | Inr piece1 \<Rightarrow>
             (case while_fits left pit (center piece1) of
                None \<Rightarrow> None
              | Some piece2 \<Rightarrow>
                  (case scan pit (piece2\<lparr>piece_xy := XY_minus (piece_xy piece2) left\<rparr>)
                          (Infinity, []) of
                     None \<Rightarrow> None
                   | Some (Inl e) \<Rightarrow> Some (Inl e)
                   | Some (Inr (bestScore, bestPositions)) \<Rightarrow>
                       Some (Inr \<lparr>best_score = bestScore, best_x = random u bestPositions,
                                  best_rotation = None\<rparr>))))"

text \<open>
  \<^verbatim>\<open>findBestPositionRotation\<close>. Round \<open>i\<close> of the loop clones the piece, rotates the
  clone \<open>i\<close> times, searches its best column and stores \<open>i\<close> in the result. The draws of the
  four searches are \<open>us 0\<close> to \<open>us 3\<close>, the draw among the rotations is \<open>us 4\<close>.
\<close>

definition try_rotation ::
  "(nat \<Rightarrow> real) \<Rightarrow> Pit \<Rightarrow> Piece \<Rightarrow> nat \<Rightarrow> (error + jsnum \<times> Best list) option
     \<Rightarrow> (error + jsnum \<times> Best list) option" where
  "try_rotation us pit piece i acc =
     (case acc of
        None \<Rightarrow> None
      | Some (Inl e) \<Rightarrow> Some (Inl e)
      | Some (Inr best) \<Rightarrow>
          (case Piece_clone piece of
             Inl e \<Rightarrow> Some (Inl e)
           | Inr tmpPiece \<Rightarrow>
               (case findBestPosition (us i) pit ((rotate_piece 1 ^^ i) tmpPiece) of
                  None \<Rightarrow> None
                | Some (Inl e) \<Rightarrow> Some (Inl e)
                | Some (Inr current) \<Rightarrow>
                    Some (Inr (better (best_score current)
                                 (current\<lparr>best_rotation := Some i\<rparr>) best)))))"

definition findBestPositionRotation ::
  "(nat \<Rightarrow> real) \<Rightarrow> Pit \<Rightarrow> Piece \<Rightarrow> (error + Best option) option" where
  "findBestPositionRotation us pit piece =
     (case fold (try_rotation us pit piece) [0..<4] (Some (Inr (Infinity, []))) of
        None \<Rightarrow> None
      | Some (Inl e) \<Rightarrow> Some (Inl e)
      | Some (Inr (bestScore, bestRotations)) \<Rightarrow> Some (Inr (random (us 4) bestRotations)))"

section \<open>Notions used to state the property of the search\<close>

text \<open>
  The piece fits in column \<open>v\<close> of the row it is in; and an entry of the list of rotations
  whose column and rotation, where both are defined, make the piece fit in the top row.
\<close>

definition fits_at :: "Pit \<Rightarrow> Piece \<Rightarrow> int \<Rightarrow> bool" where
  "fits_at pit piece v = fits (piece\<lparr>piece_xy := (v, snd (piece_xy piece))\<rparr>) pit"

definition good_entry :: "Pit \<Rightarrow> Piece \<Rightarrow> Best \<Rightarrow> bool" where
  "good_entry pit piece b \<longleftrightarrow>
     (\<forall>v i. best_x b = Some v \<longrightarrow> best_rotation b = Some i \<longrightarrow>
        fits (((rotate_piece 1 ^^ i) piece)\<lparr>piece_xy := (v, DEPTH - 1)\<rparr>) pit)"

text \<open>
  Two sequences of draws, and the attacker's \<^verbatim>\<open>-\<close> and \<^verbatim>\<open>u\<close> pieces as the
  constructor builds them.
\<close>

definition zero_draws :: "nat \<Rightarrow> real" where
  "zero_draws i = 0"

definition late_draws :: "nat \<Rightarrow> real" where
  "late_draws i = (if i = 4 then 3 / 4 else 0)"

definition dash_left :: Piece where
  "dash_left = piece_at ''-'' ''left'' 0 (0, 0)"

definition u_left :: Piece where
  "u_left = piece_at ''u'' ''left'' 0 (0, 0)"

section \<open>Objects and references: \<^verbatim>\<open>Pit.clone()\<close> on a heap\<close>

text \<open>
  Whether two pits share a structure is a question about references, which the value view
  above cannot ask. The heap holds the five kinds of mutable objects a pit is made of, each
  kind in a store of its own, and a reference is an index into its store: the arrays
  (\<^verbatim>\<open>cols\<close>, \<^verbatim>\<open>rows\<close>), the objects used as maps from a key to a cell reference
  (\<^verbatim>\<open>cells\<close>), the cells, the coordinate objects, and the pits, a pit being the
  references in its three fields \<^verbatim>\<open>cells\<close>, \<^verbatim>\<open>cols\<close> and \<^verbatim>\<open>rows\<close>. A cell holds a
  reference to a coordinate object, its type and its set. A coordinate object has the two
  fields \<^verbatim>\<open>x\<close> and \<^verbatim>\<open>y\<close>, which can be written (\<^verbatim>\<open>getScore\<close> decrements
  \<^verbatim>\<open>xy.y\<close> of a coordinate it has cloned before). The key of a map entry is a string, a
  value; as before it is written as the pair it encodes. A new object is appended to its
  store.
\<close>

record HCell =
  hc_xy :: nat
  hc_type :: string
  hc_pieceSet :: string

record Heap =
  h_arrays :: "int list list"
  h_maps :: "(XY \<times> nat) list list"
  h_cells :: "HCell list"
  h_xys :: "XY list"
  h_pits :: "(nat \<times> nat \<times> nat) list"

text \<open>
  The constructor \<^verbatim>\<open>Game.Pit\<close> allocates an empty map and the two arrays, which it
  fills with zeros. \<^verbatim>\<open>Cell.clone()\<close> is \<^verbatim>\<open>new Game.Cell(this.xy, this.type,
  this.pieceSet)\<close>: it allocates a cell that holds the same coordinate object as the
  original.
\<close>

definition heap_new_Pit :: "Heap \<Rightarrow> nat \<times> Heap" where
  "heap_new_Pit h =
     (length (h_pits h),
      h\<lparr>h_maps := h_maps h @ [[]],
        h_arrays := h_arrays h @ [replicate (nat WIDTH) 0, replicate (nat DEPTH) 0],
        h_pits := h_pits h @
          [(length (h_maps h), length (h_arrays h), Suc (length (h_arrays h)))]\<rparr>)"

definition heap_Cell_clone :: "nat \<Rightarrow> Heap \<Rightarrow> nat \<times> Heap" where
  "heap_Cell_clone a h =
     (length (h_cells h),
      h\<lparr>h_cells := h_cells h @
          [\<lparr>hc_xy = hc_xy (h_cells h ! a), hc_type = hc_type (h_cells h ! a),
            hc_pieceSet = hc_pieceSet (h_cells h ! a)\<rparr>]\<rparr>)"

text \<open>
  \<^verbatim>\<open>Pit.clone()\<close>: a new pit; \<^verbatim>\<open>JSON.parse(JSON.stringify(this.cols))\<close> is a new
  array with the numbers of \<^verbatim>\<open>this.cols\<close>, assigned to the field \<^verbatim>\<open>cols\<close> of the
  clone, and the same for \<^verbatim>\<open>rows\<close>; then, for every key \<^verbatim>\<open>p\<close> of
  \<^verbatim>\<open>this.cells\<close>, the assignment \<^verbatim>\<open>clone.cells[p] = this.cells[p].clone()\<close>
  (\<open>clone_entry\<close>).
\<close>

definition clone_entry :: "nat \<Rightarrow> XY \<times> nat \<Rightarrow> Heap \<Rightarrow> Heap" where
  "clone_entry cc pa h =
     (let (a', h1) = heap_Cell_clone (snd pa) h
      in h1\<lparr>h_maps := (h_maps h1)[cc := AList.update (fst pa) a' (h_maps h1 ! cc)]\<rparr>)"

definition heap_Pit_clone :: "nat \<Rightarrow> Heap \<Rightarrow> nat \<times> Heap" where
  "heap_Pit_clone this h0 =
     (let (clone, h1) = heap_new_Pit h0;
          (tc, tcols, trows) = h_pits h1 ! this;
          (cc, ccols, crows) = h_pits h1 ! clone;
          h2 = h1\<lparr>h_arrays := h_arrays h1 @ [h_arrays h1 ! tcols]\<rparr>;
          h3 = h2\<lparr>h_pits := (h_pits h2)[clone := (cc, length (h_arrays h1), crows)]\<rparr>;
          h4 = h3\<lparr>h_arrays := h_arrays h3 @ [h_arrays h3 ! trows]\<rparr>;
          h5 = h4\<lparr>h_pits := (h_pits h4)[clone := (cc, length (h_arrays h1), length (h_arrays h3))]\<rparr>;
          h6 = fold (clone_entry cc) (h_maps h5 ! tc) h5
      in (clone, h6))"

section \<open>Notions used to state the property of \<^verbatim>\<open>clone()\<close>\<close>

text \<open>
  The value of a cell and of a pit: everything that can be read through the reference. A
  pit of the heap is well formed when its references point into the stores, as every
  reference of a JavaScript program does, and the keys of its map are pairwise different.
\<close>

definition cell_value :: "Heap \<Rightarrow> nat \<Rightarrow> Cell" where
  "cell_value h a =
     \<lparr>cell_xy = h_xys h ! hc_xy (h_cells h ! a), cell_type = hc_type (h_cells h ! a),
      cell_pieceSet = hc_pieceSet (h_cells h ! a)\<rparr>"

definition view :: "Heap \<Rightarrow> nat \<Rightarrow> Pit" where
  "view h p =
     (case h_pits h ! p of (c, cols, rows) \<Rightarrow>
        \<lparr>pit_cells = map (\<lambda>(k, a). (k, cell_value h a)) (h_maps h ! c),
         pit_cols = h_arrays h ! cols,
         pit_rows = h_arrays h ! rows\<rparr>)"

definition wf_pit :: "Heap \<Rightarrow> nat \<Rightarrow> bool" where
  "wf_pit h p \<longleftrightarrow>
     p < length (h_pits h)
     \<and> (case h_pits h ! p of (c, cols, rows) \<Rightarrow>
          c < length (h_maps h) \<and> cols < length (h_arrays h) \<and> rows < length (h_arrays h)
          \<and> distinct (map fst (h_maps h ! c))
          \<and> list_all (\<lambda>(k, a). a < length (h_cells h)
                                \<and> hc_xy (h_cells h ! a) < length (h_xys h)) (h_maps h ! c))"

text \<open>
  A mutation writes to one object: it gives an array new elements, a map new entries, a
  cell new fields (among them another coordinate object), a coordinate object new numbers
  in its fields, or a pit new references. It is a mutation inside a pit when the object it
  writes to is the pit, its map, one of its two arrays, a cell of its map, or the
  coordinate object of such a cell.
\<close>

datatype mutation =
    SetArray nat "int list"
  | SetMap nat "(XY \<times> nat) list"
  | SetCell nat HCell
  | SetXY nat XY
  | SetPit nat "nat \<times> nat \<times> nat"

fun mutate :: "mutation \<Rightarrow> Heap \<Rightarrow> Heap" where
  "mutate (SetArray a v) h = h\<lparr>h_arrays := (h_arrays h)[a := v]\<rparr>"
| "mutate (SetMap a v) h = h\<lparr>h_maps := (h_maps h)[a := v]\<rparr>"
| "mutate (SetCell a v) h = h\<lparr>h_cells := (h_cells h)[a := v]\<rparr>"
| "mutate (SetXY a v) h = h\<lparr>h_xys := (h_xys h)[a := v]\<rparr>"
| "mutate (SetPit a v) h = h\<lparr>h_pits := (h_pits h)[a := v]\<rparr>"

fun inside :: "Heap \<Rightarrow> nat \<Rightarrow> mutation \<Rightarrow> bool" where
  "inside h p (SetArray a v) = (a = fst (snd (h_pits h ! p)) \<or> a = snd (snd (h_pits h ! p)))"
| "inside h p (SetMap a v) = (a = fst (h_pits h ! p))"
| "inside h p (SetCell a v) = (a \<in> snd ` set (h_maps h ! fst (h_pits h ! p)))"
| "inside h p (SetXY a v) =
     (a \<in> (\<lambda>(k, c). hc_xy (h_cells h ! c)) ` set (h_maps h ! fst (h_pits h ! p)))"
| "inside h p (SetPit a v) = (a = p)"

fun coordinate_write :: "mutation \<Rightarrow> bool" where
  "coordinate_write (SetXY a v) = True"
| "coordinate_write w = False"

text \<open>
  The heap after \<^verbatim>\<open>clone()\<close>, written out: four arrays, one map, one pit and as many
  cells as the map of the original has entries are appended, no coordinate object is, and
  nothing else changes.
\<close>

definition cloned :: "Heap \<Rightarrow> nat \<Rightarrow> Heap" where
  "cloned h this =
     (case h_pits h ! this of (tc, tcols, trows) \<Rightarrow>
        \<lparr>h_arrays = h_arrays h @ [replicate (nat WIDTH) 0, replicate (nat DEPTH) 0,
                                   h_arrays h ! tcols, h_arrays h ! trows],
         h_maps = h_maps h @ [zip (map fst (h_maps h ! tc))
                    [length (h_cells h)..<length (h_cells h) + length (h_maps h ! tc)]],
         h_cells = h_cells h @ map (\<lambda>(k, a). h_cells h ! a) (h_maps h ! tc),
         h_xys = h_xys h,
         h_pits = h_pits h @
           [(length (h_maps h), length (h_arrays h) + 2, length (h_arrays h) + 3)]\<rparr>)"

text \<open>
  A heap with one pit of two cells in row 0, the heap after \<^verbatim>\<open>clone()\<close> of this
  pit, and a cell to write.
\<close>

definition example_heap :: Heap where
  "example_heap =
     \<lparr>h_arrays = [[1, 1] @ replicate 8 0, 2 # replicate 15 0],
      h_maps = [[((0, 0), 0), ((1, 0), 1)]],
      h_cells = [\<lparr>hc_xy = 0, hc_type = ''-'', hc_pieceSet = ''left''\<rparr>,
                 \<lparr>hc_xy = 1, hc_type = ''-'', hc_pieceSet = ''left''\<rparr>],
      h_xys = [(0, 0), (1, 0)],
      h_pits = [(0, 0, 1)]\<rparr>"

definition example_cloned :: Heap where
  "example_cloned = snd (heap_Pit_clone 0 example_heap)"

definition example_cell :: HCell where
  "example_cell = \<lparr>hc_xy = 1, hc_type = ''o'', hc_pieceSet = ''right''\<rparr>"

section \<open>Properties of rotation\<close>

lemma update_fresh:
  "k \<notin> fst ` set al \<Longrightarrow> AList.update k v al = al @ [(k, v)]"
  by (induction al) auto

lemma fold_update_fresh:
  assumes "distinct (map f xs)" and "f ` set xs \<inter> fst ` set acc = {}"
  shows "fold (\<lambda>x m. AList.update (f x) (g x) m) xs acc = acc @ map (\<lambda>x. (f x, g x)) xs"
  using assms
proof (induction xs arbitrary: acc)
  case Nil
  then show ?case by simp
next
  case (Cons x xs)
  from Cons.prems have fresh: "f x \<notin> fst ` set acc" by auto
  have step: "AList.update (f x) (g x) acc = acc @ [(f x, g x)]"
    using fresh by (rule update_fresh)
  have d: "distinct (map f xs)" using Cons.prems by simp
  have i: "f ` set xs \<inter> fst ` set (acc @ [(f x, g x)]) = {}"
    using Cons.prems by auto
  have "fold (\<lambda>x m. AList.update (f x) (g x) m) xs (acc @ [(f x, g x)])
      = (acc @ [(f x, g x)]) @ map (\<lambda>x. (f x, g x)) xs"
    by (rule Cons.IH [OF d i])
  then show ?case by (simp add: step)
qed

lemma rotate_xy_inj: "inj (rotate_xy (rotate_sign d))"
  by (rule injI) (auto simp: rotate_xy_def rotate_sign_def split: if_splits)

lemma rotate_cells:
  assumes "distinct (offsets piece)"
  shows "piece_cells (rotate_piece d piece) =
           map (\<lambda>(p, cell). (rotate_xy (rotate_sign d) (cell_xy cell),
                              cell\<lparr>cell_xy := rotate_xy (rotate_sign d) (cell_xy cell)\<rparr>))
             (piece_cells piece)"
proof -
  let ?f = "\<lambda>pc :: XY \<times> Cell. rotate_xy (rotate_sign d) (cell_xy (snd pc))"
  let ?g = "\<lambda>pc :: XY \<times> Cell. (snd pc)\<lparr>cell_xy := rotate_xy (rotate_sign d) (cell_xy (snd pc))\<rparr>"
  have "map ?f (piece_cells piece) = map (rotate_xy (rotate_sign d)) (offsets piece)"
    by (simp add: offsets_def case_prod_beta)
  then have d: "distinct (map ?f (piece_cells piece))"
    using assms by (simp add: distinct_map rotate_xy_inj inj_on_def
        inj_eq [OF rotate_xy_inj])
  have "fold (\<lambda>x m. AList.update (?f x) (?g x) m) (piece_cells piece) []
      = [] @ map (\<lambda>x. (?f x, ?g x)) (piece_cells piece)"
    by (rule fold_update_fresh [OF d]) simp
  then show ?thesis
    by (simp add: rotate_piece_def Let_def case_prod_unfold)
qed

lemma offsets_rotate:
  "distinct (offsets piece) \<Longrightarrow>
     offsets (rotate_piece d piece) = map (rotate_xy (rotate_sign d)) (offsets piece)"
  by (simp add: rotate_cells offsets_def case_prod_unfold comp_def)

lemma distinct_offsets_rotate:
  "distinct (offsets piece) \<Longrightarrow> distinct (offsets (rotate_piece d piece))"
  by (simp add: offsets_rotate distinct_map inj_eq [OF rotate_xy_inj] inj_on_def)

lemma s_left_cells:
  "piece_cells s_left =
     [((0, 0), \<lparr>cell_xy = (0, 0), cell_type = ''s'', cell_pieceSet = ''left''\<rparr>),
      ((1, 0), \<lparr>cell_xy = (1, 0), cell_type = ''s'', cell_pieceSet = ''left''\<rparr>),
      ((0, -1), \<lparr>cell_xy = (0, -1), cell_type = ''s'', cell_pieceSet = ''left''\<rparr>),
      ((-1, -1), \<lparr>cell_xy = (-1, -1), cell_type = ''s'', cell_pieceSet = ''left''\<rparr>)]"
  by (simp add: s_left_def new_Piece_def DEF_def DEF_left_def)

lemma s_left_offsets: "offsets s_left = [(0, 0), (1, 0), (0, -1), (-1, -1)]"
  by (simp add: offsets_def s_left_cells)

text \<open>
  C8, as stated, fails. The code multiplies the two components by different signs, so the
  \<^verbatim>\<open>s\<close> piece turned by \<^verbatim>\<open>rotate(+1)\<close> or \<^verbatim>\<open>rotate(-1)\<close> does not
  occupy the offsets \<open>(y\<cdot>s, x\<cdot>s)\<close>, neither for the sign the specification assigns to the
  direction nor for the opposite one.
\<close>

theorem rotate_spec_formula_counterexample:
  "set (offsets (rotate_piece 1 s_left)) \<noteq> set (spec_offsets 1 s_left)
   \<and> set (offsets (rotate_piece 1 s_left)) \<noteq> set (spec_offsets (-1) s_left)
   \<and> set (offsets (rotate_piece (-1) s_left)) \<noteq> set (spec_offsets (-1) s_left)
   \<and> set (offsets (rotate_piece (-1) s_left)) \<noteq> set (spec_offsets 1 s_left)"
proof -
  have d: "distinct (offsets s_left)" by (simp add: s_left_offsets)
  have r1: "offsets (rotate_piece 1 s_left) = [(0, 0), (0, 1), (1, 0), (1, -1)]"
    by (simp add: offsets_rotate [OF d] s_left_offsets rotate_xy_def rotate_sign_def)
  have r2: "offsets (rotate_piece (-1) s_left) = [(0, 0), (0, -1), (-1, 0), (-1, 1)]"
    by (simp add: offsets_rotate [OF d] s_left_offsets rotate_xy_def rotate_sign_def)
  have s1: "spec_offsets 1 s_left = [(0, 0), (0, -1), (1, 0), (1, 1)]"
    by (simp add: spec_offsets_def spec_s_def spec_rotate_xy_def s_left_offsets)
  have s2: "spec_offsets (-1) s_left = [(0, 0), (0, 1), (-1, 0), (-1, -1)]"
    by (simp add: spec_offsets_def spec_s_def spec_rotate_xy_def s_left_offsets)
  have "(1, -1) \<in> set (offsets (rotate_piece 1 s_left))" by (simp add: r1)
  moreover have "((1, -1) :: XY) \<notin> set (spec_offsets 1 s_left)" by (simp add: s1)
  moreover have "((1, -1) :: XY) \<notin> set (spec_offsets (-1) s_left)" by (simp add: s2)
  moreover have "(-1, 1) \<in> set (offsets (rotate_piece (-1) s_left))" by (simp add: r2)
  moreover have "((-1, 1) :: XY) \<notin> set (spec_offsets 1 s_left)" by (simp add: s1)
  moreover have "((-1, 1) :: XY) \<notin> set (spec_offsets (-1) s_left)" by (simp add: s2)
  ultimately show ?thesis by metis
qed

text \<open>
  C8, amended. For a piece whose cells carry pairwise different offsets,
  \<^verbatim>\<open>rotate(direction)\<close> replaces each offset \<open>(x, y)\<close> with \<open>(-y, x)\<close> when the direction is
  positive and with \<open>(y, -x)\<close> otherwise, and stores every cell under its new offset. Both maps
  are the rotation matrix \<open>((c, -s), (s, c))\<close> with \<open>c = 0\<close> and \<open>s = 1\<close> or \<open>s = -1\<close>: a
  quarter turn about the origin cell.
\<close>

theorem rotate_quarter_turn:
  assumes "distinct (offsets piece)"
  shows "offsets (rotate_piece direction piece) =
           map (\<lambda>(x, y). if direction > 0 then (- y, x) else (y, - x)) (offsets piece)
         \<and> map fst (piece_cells (rotate_piece direction piece)) =
             offsets (rotate_piece direction piece)
         \<and> rotate_xy (rotate_sign direction) (x, y) =
             (let s = (if direction > 0 then 1 else - 1) in (0 * x - s * y, s * x + 0 * y))"
proof -
  have "rotate_xy (rotate_sign direction) =
          (\<lambda>(x, y). if direction > 0 then (- y, x) else (y, - x))"
    by (auto simp: rotate_xy_def rotate_sign_def fun_eq_iff)
  then have a: "offsets (rotate_piece direction piece) =
           map (\<lambda>(x, y). if direction > 0 then (- y, x) else (y, - x)) (offsets piece)"
    using offsets_rotate [OF assms, of direction] by simp
  have b: "map fst (piece_cells (rotate_piece direction piece)) =
             offsets (rotate_piece direction piece)"
    by (simp add: rotate_cells [OF assms] offsets_def case_prod_unfold comp_def)
  have c: "rotate_xy (rotate_sign direction) (x, y) =
             (let s = (if direction > 0 then 1 else - 1) in (0 * x - s * y, s * x + 0 * y))"
    by (simp add: rotate_xy_def rotate_sign_def)
  from a b c show ?thesis by blast
qed

theorem rotate_quarter_turn_witness:
  "distinct (offsets s_left)
   \<and> offsets (rotate_piece 1 s_left) = [(0, 0), (0, 1), (1, 0), (1, -1)]
   \<and> map fst (piece_cells (rotate_piece 1 s_left)) = [(0, 0), (0, 1), (1, 0), (1, -1)]"
proof -
  have d: "distinct (offsets s_left)" by (simp add: s_left_offsets)
  show ?thesis
    using d rotate_quarter_turn [OF d, of 1 0 0] by (simp add: s_left_offsets)
qed

text \<open>
  C10. For a piece whose cells carry pairwise different offsets, \<^verbatim>\<open>rotate(+1)\<close> followed
  by \<^verbatim>\<open>rotate(-1)\<close> restores every cell, and so every relative offset, to its original
  value; so do four successive \<^verbatim>\<open>rotate(+1)\<close> calls.
\<close>

theorem rotate_self_inverse:
  assumes "distinct (offsets piece)"
  shows "map snd (piece_cells (rotate_piece (-1) (rotate_piece 1 piece))) =
           map snd (piece_cells piece)
         \<and> offsets (rotate_piece (-1) (rotate_piece 1 piece)) = offsets piece
         \<and> map snd (piece_cells
               (rotate_piece 1 (rotate_piece 1 (rotate_piece 1 (rotate_piece 1 piece))))) =
             map snd (piece_cells piece)
         \<and> offsets (rotate_piece 1 (rotate_piece 1 (rotate_piece 1 (rotate_piece 1 piece)))) =
             offsets piece"
proof -
  have d1: "distinct (offsets (rotate_piece 1 piece))"
    using assms by (rule distinct_offsets_rotate)
  have d2: "distinct (offsets (rotate_piece 1 (rotate_piece 1 piece)))"
    using d1 by (rule distinct_offsets_rotate)
  have d3: "distinct (offsets (rotate_piece 1 (rotate_piece 1 (rotate_piece 1 piece))))"
    using d2 by (rule distinct_offsets_rotate)
  have inv2: "rotate_xy (rotate_sign (-1)) (rotate_xy (rotate_sign 1) v) = v" for v
    by (simp add: rotate_xy_def rotate_sign_def)
  have four: "rotate_xy (rotate_sign 1) (rotate_xy (rotate_sign 1)
                (rotate_xy (rotate_sign 1) (rotate_xy (rotate_sign 1) v))) = v" for v
    by (simp add: rotate_xy_def rotate_sign_def)
  have a: "map snd (piece_cells (rotate_piece (-1) (rotate_piece 1 piece))) =
             map snd (piece_cells piece)"
    by (simp add: rotate_cells [OF d1] rotate_cells [OF assms] case_prod_unfold comp_def inv2)
  have b: "map snd (piece_cells
               (rotate_piece 1 (rotate_piece 1 (rotate_piece 1 (rotate_piece 1 piece))))) =
             map snd (piece_cells piece)"
    by (simp add: rotate_cells [OF d3] rotate_cells [OF d2] rotate_cells [OF d1]
        rotate_cells [OF assms] case_prod_unfold comp_def four)
  have off: "offsets p = map (\<lambda>c. cell_xy c) (map snd (piece_cells p))" for p
    by (simp add: offsets_def case_prod_unfold comp_def)
  from a b show ?thesis by (simp add: off)
qed

theorem rotate_self_inverse_witness:
  "distinct (offsets s_left)
   \<and> offsets (rotate_piece (-1) (rotate_piece 1 s_left)) = [(0, 0), (1, 0), (0, -1), (-1, -1)]
   \<and> offsets (rotate_piece 1 (rotate_piece 1 (rotate_piece 1 (rotate_piece 1 s_left)))) =
       [(0, 0), (1, 0), (0, -1), (-1, -1)]"
proof -
  have d: "distinct (offsets s_left)" by (simp add: s_left_offsets)
  show ?thesis
    using d rotate_self_inverse [OF d] by (simp add: s_left_offsets)
qed

section \<open>Properties of the pit\<close>

lemma moved_0: "moved d 0 piece = piece"
  by (simp add: moved_def)

lemma moved_Suc:
  "moved d (Suc n) piece = moved d n (piece\<lparr>piece_xy := XY_plus (piece_xy piece) d\<rparr>)"
  by (simp add: moved_def XY_plus_def algebra_simps)

lemma fits_cell:
  "fits piece pit \<Longrightarrow> (p, c) \<in> set (piece_cells piece) \<Longrightarrow>
     0 \<le> fst (cell_xy c) + fst (piece_xy piece) \<and> fst (cell_xy c) + fst (piece_xy piece) < WIDTH
     \<and> 0 \<le> snd (cell_xy c) + snd (piece_xy piece)
     \<and> map_of (pit_cells pit) (XY_plus (cell_xy c) (piece_xy piece)) = None"
  by (auto simp: fits_def list_all_iff XY_plus_def Let_def)

lemma while_fits_stops:
  assumes c: "(p, c) \<in> set (piece_cells piece)"
    and d: "fst d \<le> 0" "snd d \<le> 0" "fst d + snd d < 0"
    and k: "k = nat (fst (cell_xy c) + fst (piece_xy piece) + snd (cell_xy c) + snd (piece_xy piece) + 1)"
  shows "\<exists>n. while_fits d pit piece = Some (moved d n piece)
             \<and> \<not> fits (moved d n piece) pit
             \<and> (\<forall>m<n. fits (moved d m piece) pit)"
  using c k
proof (induction k arbitrary: piece rule: less_induct)
  case (less k)
  show ?case
  proof (cases "fits piece pit")
    case False
    then have "while_fits d pit piece = Some piece"
      by (subst while_fits.simps) simp
    with False show ?thesis
      by (intro exI [of _ 0]) (simp add: moved_0)
  next
    case True
    let ?p = "piece\<lparr>piece_xy := XY_plus (piece_xy piece) d\<rparr>"
    from fits_cell [OF True less.prems(1)]
    have nonneg: "0 \<le> fst (cell_xy c) + fst (piece_xy piece)"
      "0 \<le> snd (cell_xy c) + snd (piece_xy piece)" by simp_all
    have c': "(p, c) \<in> set (piece_cells ?p)" using less.prems(1) by simp
    let ?k' = "nat (fst (cell_xy c) + fst (piece_xy ?p) + snd (cell_xy c) + snd (piece_xy ?p) + 1)"
    have "?k' < k"
      using nonneg d less.prems(2) by (simp add: XY_plus_def)
    from less.IH [OF this c' refl]
    obtain n where n: "while_fits d pit ?p = Some (moved d n ?p)"
      "\<not> fits (moved d n ?p) pit" "\<forall>m<n. fits (moved d m ?p) pit" by blast
    have "while_fits d pit piece = Some (moved d (Suc n) piece)"
      using True n(1) by (subst while_fits.simps) (simp add: moved_Suc)
    moreover have "\<not> fits (moved d (Suc n) piece) pit"
      using n(2) by (simp add: moved_Suc)
    moreover have "\<forall>m<Suc n. fits (moved d m piece) pit"
    proof (intro allI impI)
      fix m assume "m < Suc n"
      then show "fits (moved d m piece) pit"
        using True n(3) by (cases m) (simp_all add: moved_0 moved_Suc)
    qed
    ultimately show ?thesis by blast
  qed
qed

lemma fold_max_snoc: "fold max (xs @ [v]) (a::int) = max (fold max xs a) v"
  by (simp add: max.commute)

lemma rows_of_snoc:
  assumes "0 \<le> snd xy"
  shows "rows_of (cs @ [(xy, c)]) =
           (if snd xy < DEPTH then (rows_of cs)[nat (snd xy) := rows_of cs ! nat (snd xy) + 1]
            else rows_of cs)"
proof (rule nth_equalityI)
  show "length (rows_of (cs @ [(xy, c)])) =
        length (if snd xy < DEPTH then (rows_of cs)[nat (snd xy) := rows_of cs ! nat (snd xy) + 1]
            else rows_of cs)"
    by (simp add: rows_of_def)
next
  fix i assume "i < length (rows_of (cs @ [(xy, c)]))"
  then have i: "i < nat DEPTH" by (simp add: rows_of_def)
  show "rows_of (cs @ [(xy, c)]) ! i =
        (if snd xy < DEPTH then (rows_of cs)[nat (snd xy) := rows_of cs ! nat (snd xy) + 1]
            else rows_of cs) ! i"
  proof (cases "i = nat (snd xy)")
    case True
    then have "snd xy = int i" using assms by simp
    then show ?thesis using i True by (simp add: rows_of_def)
  next
    case False
    then have "snd xy \<noteq> int i" using assms by auto
    then show ?thesis using i False by (simp add: rows_of_def)
  qed
qed

lemma cols_of_snoc:
  assumes "0 \<le> fst xy" "fst xy < WIDTH"
  shows "cols_of (cs @ [(xy, c)]) =
           (cols_of cs)[nat (fst xy) := max (cols_of cs ! nat (fst xy)) (snd xy + 1)]"
proof (rule nth_equalityI)
  show "length (cols_of (cs @ [(xy, c)])) =
        length ((cols_of cs)[nat (fst xy) := max (cols_of cs ! nat (fst xy)) (snd xy + 1)])"
    by (simp add: cols_of_def)
next
  fix i assume "i < length (cols_of (cs @ [(xy, c)]))"
  then have i: "i < nat WIDTH" by (simp add: cols_of_def)
  show "cols_of (cs @ [(xy, c)]) ! i =
        (cols_of cs)[nat (fst xy) := max (cols_of cs ! nat (fst xy)) (snd xy + 1)] ! i"
  proof (cases "i = nat (fst xy)")
    case True
    then have "fst xy = int i" using assms by simp
    then show ?thesis using i True by (simp add: cols_of_def max.commute)
  next
    case False
    then have "fst xy \<noteq> int i" using assms by auto
    then show ?thesis using i False by (simp add: cols_of_def)
  qed
qed

lemma length_rows_of [simp]: "length (rows_of cs) = nat DEPTH"
  by (simp add: rows_of_def)

lemma length_cols_of [simp]: "length (cols_of cs) = nat WIDTH"
  by (simp add: cols_of_def)

lemma lock_cell_fresh:
  assumes wf: "wf_cells (pit_cells pit)" and ro: "rows_ok pit"
    and len: "length (pit_cols pit) = nat WIDTH"
    and fresh: "fst (absolute pxy pc) \<notin> fst ` set (pit_cells pit)"
    and rng: "0 \<le> fst (fst (absolute pxy pc))" "fst (fst (absolute pxy pc)) < WIDTH"
      "0 \<le> snd (fst (absolute pxy pc))"
  shows "\<exists>pit'. lock_cell pxy pc (Some pit) = Some pit'
           \<and> pit_cells pit' = pit_cells pit @ [absolute pxy pc]
           \<and> wf_cells (pit_cells pit') \<and> rows_ok pit'
           \<and> length (pit_cols pit') = nat WIDTH
           \<and> (cols_ok pit \<longrightarrow> snd (fst (absolute pxy pc)) < DEPTH \<longrightarrow> cols_ok pit')"
proof -
  let ?xy = "XY_plus pxy (cell_xy (snd pc))"
  have abs: "absolute pxy pc = (?xy, (snd pc)\<lparr>cell_xy := ?xy\<rparr>)"
    by (simp add: absolute_def)
  have upd: "AList.update ?xy ((snd pc)\<lparr>cell_xy := ?xy\<rparr>) (pit_cells pit) =
      pit_cells pit @ [absolute pxy pc]"
    using fresh by (simp add: update_fresh abs)
  have r: "pit_rows pit = rows_of (pit_cells pit)"
    using ro by (simp add: rows_ok_def)
  have x: "0 \<le> fst ?xy" "fst ?xy < WIDTH" and y: "0 \<le> snd ?xy"
    using rng by (simp_all add: abs)
  have wf': "wf_cells (pit_cells pit @ [absolute pxy pc])"
    using wf fresh rng by (simp add: wf_cells_def abs)
  show ?thesis
  proof (cases "snd ?xy < DEPTH")
    case False
    let ?pit' = "pit\<lparr>pit_cells := pit_cells pit @ [absolute pxy pc]\<rparr>"
    have "lock_cell pxy pc (Some pit) = Some ?pit'"
      using False by (simp add: lock_cell_def Let_def upd)
    moreover have "rows_ok ?pit'"
      using False y by (simp add: rows_ok_def r abs rows_of_snoc)
    ultimately show ?thesis using wf' len False by (simp add: abs)
  next
    case True
    have ar: "arr_upd (rows_of (pit_cells pit)) (snd ?xy) (\<lambda>n. n + 1) =
        Some (rows_of (pit_cells pit @ [absolute pxy pc]))"
      using y True by (simp add: arr_upd_def abs rows_of_snoc)
    obtain cols where ac: "arr_upd (pit_cols pit) (fst ?xy) (\<lambda>h. max h (snd ?xy + 1)) = Some cols"
      and lc: "length cols = nat WIDTH"
      and cc: "cols_ok pit \<longrightarrow> cols = cols_of (pit_cells pit @ [absolute pxy pc])"
      using x len by (simp add: arr_upd_def abs cols_of_snoc cols_ok_def)
    let ?pit' = "pit\<lparr>pit_cells := pit_cells pit @ [absolute pxy pc],
                     pit_rows := rows_of (pit_cells pit @ [absolute pxy pc]),
                     pit_cols := cols\<rparr>"
    have "lock_cell pxy pc (Some pit) = Some ?pit'"
      using True by (simp add: lock_cell_def Let_def upd r ar ac)
    moreover have "rows_ok ?pit'" by (simp add: rows_ok_def)
    moreover have "cols_ok pit \<longrightarrow> cols_ok ?pit'" using cc by (simp add: cols_ok_def)
    ultimately show ?thesis using wf' lc by simp
  qed
qed

lemma lock_cells:
  assumes "wf_cells (pit_cells pit)" "rows_ok pit" "length (pit_cols pit) = nat WIDTH"
    and "distinct (map (\<lambda>pc. fst (absolute pxy pc)) pcs)"
    and "\<forall>pc \<in> set pcs. fst (absolute pxy pc) \<notin> fst ` set (pit_cells pit)
           \<and> 0 \<le> fst (fst (absolute pxy pc)) \<and> fst (fst (absolute pxy pc)) < WIDTH
           \<and> 0 \<le> snd (fst (absolute pxy pc))"
  shows "\<exists>pit'. fold (lock_cell pxy) pcs (Some pit) = Some pit'
           \<and> pit_cells pit' = pit_cells pit @ map (absolute pxy) pcs
           \<and> wf_cells (pit_cells pit') \<and> rows_ok pit'
           \<and> length (pit_cols pit') = nat WIDTH
           \<and> (cols_ok pit \<longrightarrow> (\<forall>pc \<in> set pcs. snd (fst (absolute pxy pc)) < DEPTH)
                \<longrightarrow> cols_ok pit')"
  using assms
proof (induction pcs arbitrary: pit)
  case Nil
  then show ?case by simp
next
  case (Cons pc pcs)
  from Cons.prems(5) have here: "fst (absolute pxy pc) \<notin> fst ` set (pit_cells pit)"
    "0 \<le> fst (fst (absolute pxy pc))" "fst (fst (absolute pxy pc)) < WIDTH"
    "0 \<le> snd (fst (absolute pxy pc))" by simp_all
  from lock_cell_fresh [OF Cons.prems(1-3) here]
  obtain pit1 where p1: "lock_cell pxy pc (Some pit) = Some pit1"
    "pit_cells pit1 = pit_cells pit @ [absolute pxy pc]"
    "wf_cells (pit_cells pit1)" "rows_ok pit1" "length (pit_cols pit1) = nat WIDTH"
    "cols_ok pit \<longrightarrow> snd (fst (absolute pxy pc)) < DEPTH \<longrightarrow> cols_ok pit1"
    by blast
  have d: "distinct (map (\<lambda>pc. fst (absolute pxy pc)) pcs)"
    using Cons.prems(4) by simp
  have rest: "\<forall>pc' \<in> set pcs. fst (absolute pxy pc') \<notin> fst ` set (pit_cells pit1)
           \<and> 0 \<le> fst (fst (absolute pxy pc')) \<and> fst (fst (absolute pxy pc')) < WIDTH
           \<and> 0 \<le> snd (fst (absolute pxy pc'))"
  proof
    fix pc' assume m: "pc' \<in> set pcs"
    then have "fst (absolute pxy pc') \<noteq> fst (absolute pxy pc)"
      using Cons.prems(4) by (auto simp: image_iff)
    then show "fst (absolute pxy pc') \<notin> fst ` set (pit_cells pit1)
           \<and> 0 \<le> fst (fst (absolute pxy pc')) \<and> fst (fst (absolute pxy pc')) < WIDTH
           \<and> 0 \<le> snd (fst (absolute pxy pc'))"
      using Cons.prems(5) m by (simp add: p1(2))
  qed
  from Cons.IH [OF p1(3,4,5) d rest]
  obtain pit' where p': "fold (lock_cell pxy) pcs (Some pit1) = Some pit'"
    "pit_cells pit' = pit_cells pit1 @ map (absolute pxy) pcs"
    "wf_cells (pit_cells pit')" "rows_ok pit'" "length (pit_cols pit') = nat WIDTH"
    "cols_ok pit1 \<longrightarrow> (\<forall>pc \<in> set pcs. snd (fst (absolute pxy pc)) < DEPTH) \<longrightarrow> cols_ok pit'"
    by blast
  have "fold (lock_cell pxy) (pc # pcs) (Some pit) = Some pit'"
    by (simp add: p1(1) p'(1))
  moreover have "pit_cells pit' = pit_cells pit @ map (absolute pxy) (pc # pcs)"
    by (simp add: p'(2) p1(2))
  moreover have "cols_ok pit \<longrightarrow> (\<forall>pc \<in> set (pc # pcs). snd (fst (absolute pxy pc)) < DEPTH)
                \<longrightarrow> cols_ok pit'"
    using p1(6) p'(6) by simp
  ultimately show ?case using p'(3,4,5) by blast
qed

lemma absolute_keys:
  "map (\<lambda>pc. fst (absolute pxy pc)) (piece_cells piece) = map (XY_plus pxy) (offsets piece)"
  by (simp add: absolute_def offsets_def case_prod_unfold comp_def)

lemma XY_plus_inj: "inj (XY_plus pxy)"
  by (rule injI) (auto simp: XY_plus_def prod_eq_iff)

lemma XY_plus_commute: "XY_plus a b = XY_plus b a"
  by (simp add: XY_plus_def)

lemma map_of_None_iff: "map_of al k = None \<longleftrightarrow> k \<notin> fst ` set al"
  by (simp add: map_of_eq_None_iff)

lemma lock_fits:
  assumes wf: "wf_cells (pit_cells pit)" and ro: "rows_ok pit"
    and len: "length (pit_cols pit) = nat WIDTH"
    and fit: "fits piece pit" and dist: "distinct (offsets piece)"
  shows "\<exists>pit'. lock pit piece = Some pit'
           \<and> pit_cells pit' = pit_cells pit @ map (absolute (piece_xy piece)) (piece_cells piece)
           \<and> wf_cells (pit_cells pit') \<and> rows_ok pit'
           \<and> length (pit_cols pit') = nat WIDTH
           \<and> (cols_ok pit \<longrightarrow>
                below_DEPTH (map (absolute (piece_xy piece)) (piece_cells piece)) \<longrightarrow> cols_ok pit')"
proof -
  let ?pxy = "piece_xy piece"
  have d: "distinct (map (\<lambda>pc. fst (absolute ?pxy pc)) (piece_cells piece))"
    using dist by (simp add: absolute_keys distinct_map inj_on_def inj_eq [OF XY_plus_inj])
  have r: "\<forall>pc \<in> set (piece_cells piece).
             fst (absolute ?pxy pc) \<notin> fst ` set (pit_cells pit)
           \<and> 0 \<le> fst (fst (absolute ?pxy pc)) \<and> fst (fst (absolute ?pxy pc)) < WIDTH
           \<and> 0 \<le> snd (fst (absolute ?pxy pc))"
  proof
    fix pc assume "pc \<in> set (piece_cells piece)"
    then have "(fst pc, snd pc) \<in> set (piece_cells piece)" by simp
    from fits_cell [OF fit this]
    show "fst (absolute ?pxy pc) \<notin> fst ` set (pit_cells pit)
           \<and> 0 \<le> fst (fst (absolute ?pxy pc)) \<and> fst (fst (absolute ?pxy pc)) < WIDTH
           \<and> 0 \<le> snd (fst (absolute ?pxy pc))"
      by (simp add: absolute_def XY_plus_commute [of ?pxy] map_of_None_iff)
         (simp add: XY_plus_def)
  qed
  from lock_cells [OF wf ro len d r]
  obtain pit' where p: "fold (lock_cell ?pxy) (piece_cells piece) (Some pit) = Some pit'"
    "pit_cells pit' = pit_cells pit @ map (absolute ?pxy) (piece_cells piece)"
    "wf_cells (pit_cells pit')" "rows_ok pit'" "length (pit_cols pit') = nat WIDTH"
    "cols_ok pit \<longrightarrow> (\<forall>pc \<in> set (piece_cells piece). snd (fst (absolute ?pxy pc)) < DEPTH)
       \<longrightarrow> cols_ok pit'" by blast
  have "below_DEPTH (map (absolute ?pxy) (piece_cells piece)) \<longrightarrow>
        (\<forall>pc \<in> set (piece_cells piece). snd (fst (absolute ?pxy pc)) < DEPTH)"
    by (auto simp: below_DEPTH_def list_all_iff)
  with p show ?thesis by (auto simp: lock_def)
qed

lemma gravity_dir: "fst gravity \<le> 0" "snd gravity \<le> 0" "fst gravity + snd gravity < 0"
  by (simp_all add: gravity_def)

lemma landed_fits:
  assumes fit: "fits piece pit" and ne: "piece_cells piece \<noteq> []"
  shows "\<exists>m. landed pit piece = Some (moved gravity m piece)
           \<and> fits (moved gravity m piece) pit
           \<and> \<not> fits (moved gravity (Suc m) piece) pit"
proof -
  from ne obtain p c where c: "(p, c) \<in> set (piece_cells piece)"
    by (cases "piece_cells piece") auto
  from while_fits_stops [OF c gravity_dir refl, of pit]
  obtain n where n: "while_fits gravity pit piece = Some (moved gravity n piece)"
    "\<not> fits (moved gravity n piece) pit" "\<forall>m<n. fits (moved gravity m piece) pit" by blast
  from n(2) fit have "n \<noteq> 0" by (auto simp: moved_0 intro: ccontr)
  then obtain m where m: "n = Suc m" by (cases n) auto
  have "landed pit piece = Some (moved gravity m piece)"
    unfolding landed_def n(1) by (simp add: m moved_def XY_minus_def gravity_def)
  then show ?thesis using n(2,3) m by auto
qed

lemma shift_cell_eq:
  "shift_cell js k pc (Some (acc, cols)) =
     (case arr_upd cols (fst (fst (shifted js k pc)))
             (\<lambda>h. max h (snd (fst (shifted js k pc)) + 1)) of
        None \<Rightarrow> None
      | Some cols' \<Rightarrow>
          Some (AList.update (fst (shifted js k pc)) (snd (shifted js k pc)) acc, cols'))"
  by (auto simp add: shift_cell_def shifted_def Let_def split: option.splits)

lemma shift_fold:
  assumes "distinct (map (\<lambda>pc. fst (shifted js k pc)) cs)"
    and "\<forall>pc \<in> set cs. fst (shifted js k pc) \<notin> fst ` set acc
           \<and> 0 \<le> fst (fst (shifted js k pc)) \<and> fst (fst (shifted js k pc)) < WIDTH"
  shows "fold (shift_cell js k) cs (Some (acc, cols_of acc)) =
           Some (acc @ map (shifted js k) cs, cols_of (acc @ map (shifted js k) cs))"
  using assms
proof (induction cs arbitrary: acc)
  case Nil
  then show ?case by simp
next
  case (Cons pc cs)
  obtain xy c where sh: "shifted js k pc = (xy, c)" by (cases "shifted js k pc")
  from Cons.prems(2) sh have here: "xy \<notin> fst ` set acc" "0 \<le> fst xy" "fst xy < WIDTH"
    by simp_all
  have step: "shift_cell js k pc (Some (acc, cols_of acc)) =
      Some (acc @ [(xy, c)], cols_of (acc @ [(xy, c)]))"
    using here by (simp add: shift_cell_eq sh arr_upd_def update_fresh cols_of_snoc)
  have d: "distinct (map (\<lambda>pc. fst (shifted js k pc)) cs)"
    using Cons.prems(1) by simp
  have rest: "\<forall>pc' \<in> set cs. fst (shifted js k pc') \<notin> fst ` set (acc @ [(xy, c)])
           \<and> 0 \<le> fst (fst (shifted js k pc')) \<and> fst (fst (shifted js k pc')) < WIDTH"
  proof
    fix pc' assume m: "pc' \<in> set cs"
    then have "fst (shifted js k pc') \<noteq> xy"
      using Cons.prems(1) sh by (auto simp: image_iff)
    then show "fst (shifted js k pc') \<notin> fst ` set (acc @ [(xy, c)])
           \<and> 0 \<le> fst (fst (shifted js k pc')) \<and> fst (fst (shifted js k pc')) < WIDTH"
      using Cons.prems(2) m by simp
  qed
  show ?case
    by (simp add: step Cons.IH [OF d rest] sh)
qed

lemma shift_total:
  assumes "\<forall>pc \<in> set cs. 0 \<le> fst (cell_xy (snd pc)) \<and> fst (cell_xy (snd pc)) < int (length cols)"
  shows "\<exists>n cols'. fold (shift_cell js k) cs (Some (acc, cols)) = Some (n, cols')
           \<and> length cols' = length cols"
  using assms
proof (induction cs arbitrary: acc cols)
  case Nil
  then show ?case by simp
next
  case (Cons pc cs)
  have x: "fst (fst (shifted js k pc)) = fst (cell_xy (snd pc))"
    by (simp add: shifted_def Let_def)
  from Cons.prems have r: "0 \<le> fst (cell_xy (snd pc))" "fst (cell_xy (snd pc)) < int (length cols)"
    by simp_all
  then obtain acc1 cols1 where step: "shift_cell js k pc (Some (acc, cols)) = Some (acc1, cols1)"
    and l: "length cols1 = length cols"
    by (simp add: shift_cell_eq x arr_upd_def)
  have "\<forall>pc \<in> set cs. 0 \<le> fst (cell_xy (snd pc)) \<and> fst (cell_xy (snd pc)) < int (length cols1)"
    using Cons.prems l by simp
  from Cons.IH [OF this, of acc1] show ?case by (simp add: step l)
qed

lemma fold_remove_row_cells:
  "pit_cells (fold remove_row js pit) =
     filter (\<lambda>(p, c). snd (cell_xy c) \<notin> int ` set js) (pit_cells pit)"
proof (induction js arbitrary: pit)
  case Nil
  then show ?case by simp
next
  case (Cons j js)
  have "pit_cells (fold remove_row (j # js) pit) =
        filter (\<lambda>(p, c). snd (cell_xy c) \<notin> int ` set js) (pit_cells (remove_row j pit))"
    by (simp add: Cons.IH)
  also have "pit_cells (remove_row j pit) =
        filter (\<lambda>(p, c). snd (cell_xy c) \<noteq> int j) (pit_cells pit)"
    by (simp add: remove_row_def)
  also have "filter (\<lambda>(p, c). snd (cell_xy c) \<notin> int ` set js)
               (filter (\<lambda>(p, c). snd (cell_xy c) \<noteq> int j) (pit_cells pit)) =
             filter (\<lambda>(p, c). snd (cell_xy c) \<notin> int ` set (j # js)) (pit_cells pit)"
    by (auto intro: filter_cong)
  finally show ?case .
qed

lemma fold_remove_row_cols:
  "pit_cols (fold remove_row js pit) =
     (if js = [] then pit_cols pit else map (\<lambda>_. 0) (pit_cols pit))"
proof (induction js arbitrary: pit)
  case Nil
  then show ?case by simp
next
  case (Cons j js)
  have "pit_cols (fold remove_row (j # js) pit) =
        (if js = [] then pit_cols (remove_row j pit)
         else map (\<lambda>_. 0) (pit_cols (remove_row j pit)))"
    by (simp add: Cons.IH)
  also have "pit_cols (remove_row j pit) = map (\<lambda>_. 0) (pit_cols pit)"
    by (simp add: remove_row_def)
  finally show ?case by (simp add: comp_def)
qed

lemma fold_remove_row_rows:
  assumes "lo + k \<le> length (pit_rows pit)"
  shows "pit_rows (fold remove_row (rev [lo..<lo + k]) pit) =
           take lo (pit_rows pit) @ drop (lo + k) (pit_rows pit) @ replicate k 0"
  using assms
proof (induction k arbitrary: pit)
  case 0
  then show ?case by simp
next
  case (Suc k)
  let ?p = "remove_row (lo + k) pit"
  have rows1: "pit_rows ?p = take (lo + k) (pit_rows pit) @ drop (Suc (lo + k)) (pit_rows pit) @ [0]"
    by (simp add: remove_row_def)
  have len: "lo + k \<le> length (pit_rows ?p)"
    using Suc.prems by (simp add: rows1)
  have "pit_rows (fold remove_row (rev [lo..<lo + Suc k]) pit) =
        pit_rows (fold remove_row (rev [lo..<lo + k]) ?p)"
    by simp
  also have "\<dots> = take lo (pit_rows ?p) @ drop (lo + k) (pit_rows ?p) @ replicate k 0"
    by (rule Suc.IH [OF len])
  also have "\<dots> = take lo (pit_rows pit) @ drop (lo + Suc k) (pit_rows pit) @ replicate (Suc k) 0"
    using Suc.prems by (simp add: rows1 min_def replicate_append_same)
  finally show ?case .
qed

lemma cols_of_Nil: "cols_of [] = replicate (nat WIDTH) 0"
  by (simp add: cols_of_def map_replicate_const)

lemma length_filter_disj:
  assumes "\<forall>x \<in> set xs. \<not> (P x \<and> Q x)"
  shows "length (filter (\<lambda>x. P x \<or> Q x) xs) = length (filter P xs) + length (filter Q xs)"
  using assms by (induction xs) auto

lemma count_rows_range:
  assumes "\<forall>j. lo \<le> j \<and> j < lo + k \<longrightarrow> length (filter (\<lambda>pc. snd (fst pc) = int j) cs) = w"
  shows "length (filter (\<lambda>pc. snd (fst pc) \<in> int ` {lo..<lo + k}) cs) = k * w"
  using assms
proof (induction k)
  case 0
  then show ?case by simp
next
  case (Suc k)
  have split: "(\<lambda>pc. snd (fst pc) \<in> int ` {lo..<lo + Suc k}) =
      (\<lambda>pc. snd (fst pc) \<in> int ` {lo..<lo + k} \<or> snd (fst pc) = int (lo + k))"
  proof -
    have "{lo..<lo + Suc k} = insert (lo + k) {lo..<lo + k}" by auto
    then show ?thesis by (auto simp only: fun_eq_iff image_insert insert_iff)
  qed
  have disj: "\<forall>pc \<in> set cs. \<not> (snd (fst pc) \<in> int ` {lo..<lo + k} \<and> snd (fst pc) = int (lo + k))"
    by auto
  have a: "length (filter (\<lambda>pc. snd (fst pc) \<in> int ` {lo..<lo + k}) cs) = k * w"
    using Suc.prems by (intro Suc.IH) auto
  have b: "length (filter (\<lambda>pc. snd (fst pc) = int (lo + k)) cs) = w"
    using Suc.prems [rule_format, of "lo + k"] by simp
  have "length (filter (\<lambda>pc. snd (fst pc) \<in> int ` {lo..<lo + Suc k}) cs) =
        length (filter (\<lambda>pc. snd (fst pc) \<in> int ` {lo..<lo + k}
                               \<or> snd (fst pc) = int (lo + k)) cs)"
    by (simp only: split)
  also have "\<dots> = k * w + w"
    by (simp only: length_filter_disj [OF disj] a b)
  finally show ?case by simp
qed

lemma completed_mem:
  "j \<in> set (completed pit) \<longleftrightarrow>
     j < nat DEPTH \<and> j < length (pit_rows pit) \<and> pit_rows pit ! j = WIDTH"
  by (auto simp: completed_def)

lemma rows_of_nth:
  "j < nat DEPTH \<Longrightarrow> rows_of cs ! j = int (length (filter (\<lambda>pc. snd (fst pc) = int j) cs))"
  by (simp add: rows_of_def case_prod_unfold)

lemma keep_gap:
  assumes "pc \<in> set (filter (\<lambda>pc. snd (fst pc) \<notin> int ` {lo..<lo + k}) cs)"
  shows "snd (fst pc) < int lo \<or> int lo + int k \<le> snd (fst pc)"
proof (rule ccontr)
  assume "\<not> ?thesis"
  then have "int lo \<le> snd (fst pc)" "snd (fst pc) < int lo + int k" by simp_all
  then have "snd (fst pc) \<in> int ` {lo..<lo + k}"
    by (intro image_eqI [of _ _ "nat (snd (fst pc))"]) auto
  with assms show False by simp
qed

lemma shift_down_key:
  assumes "0 < k" "snd (fst pc) < int lo \<or> int lo + int k \<le> snd (fst pc)"
  shows "fst (shift_down lo k pc) =
      (fst (fst pc), if snd (fst pc) < int lo then snd (fst pc) else snd (fst pc) - int k)"
  using assms by (auto simp: shift_down_def prod_eq_iff)

lemma cleanup_adjacent:
  assumes wf: "wf_cells (pit_cells pit)"
    and ro: "rows_ok pit" and len: "length (pit_cols pit) = nat WIDTH"
    and adj: "completed pit = [lo..<lo + k]" and k: "0 < k"
  shows "\<exists>pit'. cleanup pit = Some (int k, pit')
     \<and> pit_cells pit' =
         map (shift_down lo k)
           (filter (\<lambda>pc. snd (fst pc) \<notin> int ` {lo..<lo + k}) (pit_cells pit))
     \<and> pit_rows pit' = take lo (pit_rows pit) @ drop (lo + k) (pit_rows pit) @ replicate k 0
     \<and> wf_cells (pit_cells pit') \<and> cols_ok pit'
     \<and> int (length (pit_cells pit')) = int (length (pit_cells pit)) - int k * WIDTH"
proof -
  let ?cs = "pit_cells pit"
  let ?js = "rev [lo..<lo + k]"
  let ?keep = "filter (\<lambda>pc. snd (fst pc) \<notin> int ` {lo..<lo + k}) ?cs"
  let ?new = "map (shift_down lo k) ?keep"
  have elt: "cell_xy (snd pc) = fst pc \<and> 0 \<le> fst (fst pc) \<and> fst (fst pc) < WIDTH
               \<and> 0 \<le> snd (fst pc)" if "pc \<in> set ?cs" for pc
    using wf that by (auto simp: wf_cells_def list_all_iff)
  have dist: "distinct (map fst ?cs)" using wf by (simp add: wf_cells_def)
  have top: "lo + k \<le> nat DEPTH"
  proof -
    have "lo + k - 1 \<in> set (completed pit)" using k by (simp add: adj)
    then have "lo + k - 1 < nat DEPTH" by (simp add: completed_mem)
    then show ?thesis using k by simp
  qed
  have rows_len: "length (pit_rows pit) = nat DEPTH" using ro by (simp add: rows_ok_def)
  have full: "length (filter (\<lambda>pc. snd (fst pc) = int j) ?cs) = nat WIDTH"
    if "lo \<le> j \<and> j < lo + k" for j
  proof -
    from that have "j \<in> set (completed pit)" by (simp add: adj)
    then have "j < nat DEPTH" "pit_rows pit ! j = WIDTH" by (simp_all add: completed_mem)
    then show ?thesis using ro by (simp add: rows_ok_def rows_of_nth)
  qed
  let ?pit1 = "fold remove_row ?js pit"
  have c1: "pit_cells ?pit1 = ?keep"
  proof -
    have "pit_cells ?pit1 = filter (\<lambda>(p, c). snd (cell_xy c) \<notin> int ` set ?js) ?cs"
      by (rule fold_remove_row_cells)
    also have "\<dots> = ?keep"
      using elt by (intro filter_cong) (auto simp: case_prod_unfold)
    finally show ?thesis .
  qed
  have o1: "pit_cols ?pit1 = cols_of []"
    using k len by (simp add: fold_remove_row_cols cols_of_Nil map_replicate_const)
  have r1: "pit_rows ?pit1 =
      take lo (pit_rows pit) @ drop (lo + k) (pit_rows pit) @ replicate k 0"
    using top rows_len by (intro fold_remove_row_rows) simp
  have sh: "shifted ?js (int k) pc = shift_down lo k pc" if "pc \<in> set ?cs" for pc
    using k elt [OF that] by (simp add: shifted_def shift_down_def Let_def last_rev)
  have keep_sub: "set ?keep \<subseteq> set ?cs" by auto
  note gap = keep_gap [of _ lo k ?cs]
  note key = shift_down_key [OF k gap]
  have inj: "inj_on (\<lambda>pc. fst (shift_down lo k pc)) (set ?keep)"
  proof (rule inj_onI)
    fix a b assume a: "a \<in> set ?keep" and b: "b \<in> set ?keep"
      and e: "fst (shift_down lo k a) = fst (shift_down lo k b)"
    have "fst a = fst b"
      using e gap [OF a] gap [OF b] unfolding key [OF a] key [OF b]
      by (auto simp: prod_eq_iff split: if_splits)
    moreover have "inj_on fst (set ?cs)" using dist by (simp add: distinct_map)
    ultimately show "a = b" using a b keep_sub by (auto dest: inj_onD)
  qed
  have dkeep: "distinct ?keep" using dist by (auto simp: distinct_map intro: distinct_filter)
  have dnew: "distinct (map (\<lambda>pc. fst (shifted ?js (int k) pc)) ?keep)"
  proof -
    have eq: "map (\<lambda>pc. fst (shifted ?js (int k) pc)) ?keep =
          map (\<lambda>pc. fst (shift_down lo k pc)) ?keep"
      using sh keep_sub by (intro map_cong) auto
    show ?thesis unfolding eq using inj dkeep by (simp add: distinct_map)
  qed
  have rng: "\<forall>pc \<in> set ?keep. fst (shifted ?js (int k) pc) \<notin> fst ` set []
       \<and> 0 \<le> fst (fst (shifted ?js (int k) pc)) \<and> fst (fst (shifted ?js (int k) pc)) < WIDTH"
  proof
    fix pc assume m: "pc \<in> set ?keep"
    then have "pc \<in> set ?cs" by simp
    from sh [OF this] elt [OF this] key [OF m]
    show "fst (shifted ?js (int k) pc) \<notin> fst ` set []
       \<and> 0 \<le> fst (fst (shifted ?js (int k) pc)) \<and> fst (fst (shifted ?js (int k) pc)) < WIDTH"
      by simp
  qed
  have newmap: "map (shifted ?js (int k)) ?keep = ?new"
    using sh keep_sub by (intro map_cong) auto
  have fold_shift: "fold (shift_cell ?js (int k)) ?keep (Some ([], cols_of [])) =
      Some (?new, cols_of ?new)"
    using shift_fold [OF dnew rng] by (simp add: newmap)
  let ?pit' = "?pit1\<lparr>pit_cells := ?new, pit_cols := cols_of ?new\<rparr>"
  have rem: "removeCompletedRows [lo..<lo + k] pit = Some ?pit'"
    by (simp add: removeCompletedRows_def Let_def c1 o1 fold_shift)
  have cl: "cleanup pit = Some (int k, ?pit')"
    using k by (simp add: cleanup_def Let_def adj rem)
  have wf': "wf_cells ?new"
  proof -
    have "distinct (map fst ?new)"
      using inj dkeep by (simp add: distinct_map comp_def)
    moreover have "list_all (\<lambda>(p, c). cell_xy c = p \<and> 0 \<le> fst p \<and> fst p < WIDTH \<and> 0 \<le> snd p) ?new"
    proof -
      have "cell_xy (snd (shift_down lo k pc)) = fst (shift_down lo k pc)
            \<and> 0 \<le> fst (fst (shift_down lo k pc)) \<and> fst (fst (shift_down lo k pc)) < WIDTH
            \<and> 0 \<le> snd (fst (shift_down lo k pc))" if "pc \<in> set ?keep" for pc
      proof -
        from that have "pc \<in> set ?cs" by simp
        from elt [OF this] gap [OF that] show ?thesis
          by (auto simp: shift_down_def)
      qed
      then show ?thesis by (simp add: list_all_iff case_prod_unfold)
    qed
    ultimately show ?thesis by (simp add: wf_cells_def)
  qed
  have len': "int (length ?new) = int (length ?cs) - int k * WIDTH"
  proof -
    have "length (filter (\<lambda>pc. snd (fst pc) \<in> int ` {lo..<lo + k}) ?cs) = k * nat WIDTH"
      using full by (intro count_rows_range) blast
    moreover have "length ?cs = length (filter (\<lambda>pc. snd (fst pc) \<in> int ` {lo..<lo + k}) ?cs)
        + length ?keep"
      by (rule sum_length_filter_compl [symmetric])
    ultimately have "int (length ?keep) = int (length ?cs) - int (k * nat WIDTH)" by simp
    then show ?thesis by (simp add: WIDTH_def)
  qed
  have cols': "cols_ok ?pit'" by (simp add: cols_ok_def)
  from cl wf' len' cols' r1 show ?thesis by simp
qed

lemma rows_after_shift:
  assumes wf: "wf_cells cs" and bd: "below_DEPTH cs"
    and top: "lo + k \<le> nat DEPTH" and k: "0 < k"
  shows "rows_of (map (shift_down lo k) (filter (\<lambda>pc. snd (fst pc) \<notin> int ` {lo..<lo + k}) cs)) =
           take lo (rows_of cs) @ drop (lo + k) (rows_of cs) @ replicate k 0"
    and "below_DEPTH (map (shift_down lo k) (filter (\<lambda>pc. snd (fst pc) \<notin> int ` {lo..<lo + k}) cs))"
proof -
  let ?keep = "filter (\<lambda>pc. snd (fst pc) \<notin> int ` {lo..<lo + k}) cs"
  let ?new = "map (shift_down lo k) ?keep"
  let ?rows = "rows_of cs"
  have elt: "0 \<le> snd (fst pc) \<and> snd (fst pc) < DEPTH" if "pc \<in> set cs" for pc
    using wf bd that by (auto simp: wf_cells_def below_DEPTH_def list_all_iff)
  note gap = keep_gap [of _ lo k cs]
  note key = shift_down_key [OF k gap]
  show "below_DEPTH ?new"
  proof -
    have "snd (fst (shift_down lo k pc)) < DEPTH" if "pc \<in> set ?keep" for pc
    proof -
      from that have "pc \<in> set cs" by simp
      from elt [OF this] show ?thesis by (auto simp: shift_down_def)
    qed
    then show ?thesis by (simp add: below_DEPTH_def list_all_iff case_prod_unfold)
  qed
  show "rows_of ?new = take lo ?rows @ drop (lo + k) ?rows @ replicate k 0"
  proof (rule nth_equalityI)
    show "length (rows_of ?new) = length (take lo ?rows @ drop (lo + k) ?rows @ replicate k 0)"
      using top by simp
  next
    fix i assume "i < length (rows_of ?new)"
    then have i: "i < nat DEPTH" by simp
    let ?src = "if i < lo then i else i + k"
    have cnt: "filter (\<lambda>pc. snd (fst pc) = int i) ?new =
        map (shift_down lo k) (filter (\<lambda>pc. snd (fst pc) = int ?src) cs)"
    proof -
      have "filter (\<lambda>pc. snd (fst pc) = int i) ?new =
          map (shift_down lo k) (filter (\<lambda>pc. snd (fst (shift_down lo k pc)) = int i) ?keep)"
        by (simp add: filter_map comp_def)
      also have "filter (\<lambda>pc. snd (fst (shift_down lo k pc)) = int i) ?keep =
          filter (\<lambda>pc. snd (fst (shift_down lo k pc)) = int i
                       \<and> snd (fst pc) \<notin> int ` {lo..<lo + k}) cs"
        by (simp add: conj_commute)
      also have "\<dots> = filter (\<lambda>pc. snd (fst pc) = int ?src) cs"
      proof (rule filter_cong [OF refl])
        fix pc assume m: "pc \<in> set cs"
        show "(snd (fst (shift_down lo k pc)) = int i \<and> snd (fst pc) \<notin> int ` {lo..<lo + k})
              = (snd (fst pc) = int ?src)"
        proof (cases "snd (fst pc) \<in> int ` {lo..<lo + k}")
          case True
          then show ?thesis by auto
        next
          case False
          with m have "pc \<in> set ?keep" by simp
          from key [OF this] gap [OF this] False show ?thesis by auto
        qed
      qed
      finally show ?thesis .
    qed
    have "rows_of ?new ! i = int (length (filter (\<lambda>pc. snd (fst pc) = int ?src) cs))"
      using i by (simp add: rows_of_nth cnt)
    also have "\<dots> = (take lo ?rows @ drop (lo + k) ?rows @ replicate k 0) ! i"
    proof (cases "?src < nat DEPTH")
      case True
      then have "int (length (filter (\<lambda>pc. snd (fst pc) = int ?src) cs)) = ?rows ! ?src"
        by (simp add: rows_of_nth)
      also have "\<dots> = (take lo ?rows @ drop (lo + k) ?rows @ replicate k 0) ! i"
        using True top by (auto simp: nth_append min_def add.commute)
      finally show ?thesis .
    next
      case False
      then have "snd (fst pc) \<noteq> int ?src" if "pc \<in> set cs" for pc
        using elt [OF that] by (auto split: if_splits)
      then have "filter (\<lambda>pc. snd (fst pc) = int ?src) cs = []"
        by (simp add: filter_empty_conv)
      moreover have "(take lo ?rows @ drop (lo + k) ?rows @ replicate k 0) ! i = 0"
        using False i top by (auto simp: nth_append min_def)
      ultimately show ?thesis by simp
    qed
    finally show "rows_of ?new ! i = (take lo ?rows @ drop (lo + k) ?rows @ replicate k 0) ! i" .
  qed
qed

lemma cleanup_no_rows: "completed pit = [] \<Longrightarrow> cleanup pit = Some (0, pit)"
  by (simp add: cleanup_def)

lemma cleanup_total:
  assumes wf: "wf_cells (pit_cells pit)" and len: "length (pit_cols pit) = nat WIDTH"
  shows "\<exists>pit'. cleanup pit = Some (int (length (completed pit)), pit')"
proof (cases "completed pit = []")
  case True
  then show ?thesis by (simp add: cleanup_no_rows)
next
  case False
  let ?js = "rev (sort (completed pit))"
  let ?pit1 = "fold remove_row ?js pit"
  have l1: "length (pit_cols ?pit1) = nat WIDTH"
    using len by (simp add: fold_remove_row_cols)
  have "\<forall>pc \<in> set (pit_cells ?pit1).
          0 \<le> fst (cell_xy (snd pc)) \<and> fst (cell_xy (snd pc)) < int (length (pit_cols ?pit1))"
    using wf unfolding l1 fold_remove_row_cells
    by (auto simp: wf_cells_def list_all_iff)
  from shift_total [OF this, of ?js "int (length ?js)" "[]"]
  obtain n cols' where
    "fold (shift_cell ?js (int (length ?js))) (pit_cells ?pit1) (Some ([], pit_cols ?pit1)) =
       Some (n, cols')" by blast
  then have "\<exists>pit'. removeCompletedRows (completed pit) pit = Some pit'"
    by (simp add: removeCompletedRows_def Let_def)
  then show ?thesis using False by (auto simp: cleanup_def Let_def)
qed

lemma row_full_iff:
  assumes wf: "wf_cells cs"
  shows "length (filter (\<lambda>pc. snd (fst pc) = j) cs) = nat WIDTH \<longleftrightarrow>
           (\<forall>x. 0 \<le> x \<and> x < WIDTH \<longrightarrow> (x, j) \<in> fst ` set cs)"
proof -
  let ?R = "filter (\<lambda>pc. snd (fst pc) = j) cs"
  let ?X = "(\<lambda>pc. fst (fst pc)) ` set ?R"
  have dist: "distinct (map fst cs)" using wf by (simp add: wf_cells_def)
  then have dR: "distinct (map fst ?R)" by (rule distinct_map_filter)
  have "inj_on fst (set (map fst ?R))"
    by (rule inj_onI) (auto simp: prod_eq_iff)
  with dR have "distinct (map fst (map fst ?R))"
    by (simp only: distinct_map [of fst "map fst ?R"])
  then have "card (set (map fst (map fst ?R))) = length (map fst (map fst ?R))"
    by (rule distinct_card)
  then have cardX: "card ?X = length ?R" by (simp add: image_image)
  have sub: "?X \<subseteq> {0..<WIDTH}"
    using wf by (auto simp: wf_cells_def list_all_iff)
  have mem: "x \<in> ?X \<longleftrightarrow> (x, j) \<in> fst ` set cs" for x
    by (auto simp: image_iff) (metis fst_conv snd_conv)+
  show ?thesis
  proof
    assume "length ?R = nat WIDTH"
    then have "card ?X = card {0..<WIDTH}" using cardX by simp
    with sub have "?X = {0..<WIDTH}" by (intro card_subset_eq) auto
    then show "\<forall>x. 0 \<le> x \<and> x < WIDTH \<longrightarrow> (x, j) \<in> fst ` set cs"
      using mem by auto
  next
    assume "\<forall>x. 0 \<le> x \<and> x < WIDTH \<longrightarrow> (x, j) \<in> fst ` set cs"
    then have "{0..<WIDTH} \<subseteq> ?X" using mem by auto
    with sub have "?X = {0..<WIDTH}" by auto
    then have "card ?X = nat WIDTH" by simp
    then show "length ?R = nat WIDTH" using cardX by simp
  qed
qed

lemma completed_full_rows:
  assumes wf: "wf_cells (pit_cells pit)" and ro: "rows_ok pit"
  shows "completed pit = full_rows (pit_cells pit)"
  unfolding completed_def full_rows_def
proof (rule filter_cong [OF refl])
  fix j assume "j \<in> set [0..<nat DEPTH]"
  then have j: "j < nat DEPTH" by simp
  have "pit_rows pit ! j = WIDTH \<longleftrightarrow>
        length (filter (\<lambda>pc. snd (fst pc) = int j) (pit_cells pit)) = nat WIDTH"
    using ro j by (auto simp: rows_ok_def rows_of_nth WIDTH_def)
  also have "\<dots> \<longleftrightarrow> (\<forall>x. 0 \<le> x \<and> x < WIDTH \<longrightarrow> (x, int j) \<in> fst ` set (pit_cells pit))"
    by (rule row_full_iff [OF wf])
  also have "\<dots> \<longleftrightarrow> list_all (\<lambda>x. map_of (pit_cells pit) (int x, int j) \<noteq> None) [0..<nat WIDTH]"
  proof
    assume a: "\<forall>x. 0 \<le> x \<and> x < WIDTH \<longrightarrow> (x, int j) \<in> fst ` set (pit_cells pit)"
    show "list_all (\<lambda>x. map_of (pit_cells pit) (int x, int j) \<noteq> None) [0..<nat WIDTH]"
      unfolding list_all_iff map_of_None_iff
    proof
      fix x assume "x \<in> set [0..<nat WIDTH]"
      then have "0 \<le> int x \<and> int x < WIDTH" by auto
      with a show "\<not> (int x, int j) \<notin> fst ` set (pit_cells pit)" by blast
    qed
  next
    assume a: "list_all (\<lambda>x. map_of (pit_cells pit) (int x, int j) \<noteq> None) [0..<nat WIDTH]"
    show "\<forall>x. 0 \<le> x \<and> x < WIDTH \<longrightarrow> (x, int j) \<in> fst ` set (pit_cells pit)"
    proof (intro allI impI)
      fix x :: int assume x: "0 \<le> x \<and> x < WIDTH"
      then have "nat x \<in> set [0..<nat WIDTH]" by auto
      with a have "map_of (pit_cells pit) (int (nat x), int j) \<noteq> None"
        unfolding list_all_iff by blast
      then show "(x, int j) \<in> fst ` set (pit_cells pit)"
        using x by (simp add: map_of_None_iff)
    qed
  qed
  finally show "(j < length (pit_rows pit) \<and> pit_rows pit ! j = WIDTH) =
        list_all (\<lambda>x. map_of (pit_cells pit) (int x, int j) \<noteq> None) [0..<nat WIDTH]"
    using ro j by (simp add: rows_ok_def)
qed

lemma while_fits_Some_cells:
  assumes "while_fits d pit piece = Some q"
  shows "piece_cells piece \<noteq> []"
proof (rule while_fits.raw_induct [where P = "\<lambda>d pit piece q. piece_cells piece \<noteq> []", OF _ assms])
  fix f d pit piece q
  assume ih: "\<And>d pit piece q. f d pit piece = Some q \<Longrightarrow> piece_cells piece \<noteq> []"
    and b: "(if fits piece pit then f d pit (piece\<lparr>piece_xy := XY_plus (piece_xy piece) d\<rparr>)
             else Some piece) = Some q"
  show "piece_cells piece \<noteq> []"
  proof (cases "fits piece pit")
    case True
    with b have "f d pit (piece\<lparr>piece_xy := XY_plus (piece_xy piece) d\<rparr>) = Some q" by simp
    from ih [OF this] show ?thesis by simp
  next
    case False
    then show ?thesis by (auto simp: fits_def)
  qed
qed

lemma offsets_moved: "offsets (moved d n piece) = offsets piece"
  by (simp add: offsets_def moved_def)

lemma cells_moved: "piece_cells (moved d n piece) = piece_cells piece"
  by (simp add: moved_def)

lemma adjacentD:
  assumes "adjacent js" "js \<noteq> []"
  shows "js = [hd js..<hd js + length js]"
proof -
  from assms(2) obtain j js' where js: "js = j # js'" by (cases js) auto
  with assms(1) have e: "js' = [Suc j..<Suc j + length js']" by simp
  have "[j..<j + length js] = j # [Suc j..<j + length js]"
    by (rule upt_conv_Cons) (simp add: js)
  also have "[Suc j..<j + length js] = js'"
    using e by (simp add: js)
  finally show ?thesis by (simp add: js)
qed

lemma locked_fits:
  assumes wf: "wf_cells (pit_cells pit)" and ro: "rows_ok pit"
    and len: "length (pit_cols pit) = nat WIDTH"
    and fit: "fits piece pit" and dist: "distinct (offsets piece)"
    and ne: "piece_cells piece \<noteq> []"
  shows "\<exists>piece' pit1. landed pit piece = Some piece' \<and> locked pit piece = Some pit1
           \<and> pit_cells pit1 = pit_cells pit @ map (absolute (piece_xy piece')) (piece_cells piece')
           \<and> wf_cells (pit_cells pit1) \<and> rows_ok pit1
           \<and> length (pit_cols pit1) = nat WIDTH
           \<and> (cols_ok pit \<longrightarrow>
                below_DEPTH (map (absolute (piece_xy piece')) (piece_cells piece')) \<longrightarrow>
                cols_ok pit1)"
proof -
  from landed_fits [OF fit ne]
  obtain m where m: "landed pit piece = Some (moved gravity m piece)"
    "fits (moved gravity m piece) pit" by blast
  have d: "distinct (offsets (moved gravity m piece))"
    using dist by (simp add: offsets_moved)
  from lock_fits [OF wf ro len m(2) d]
  obtain pit1 where p: "lock pit (moved gravity m piece) = Some pit1"
    "pit_cells pit1 = pit_cells pit @
       map (absolute (piece_xy (moved gravity m piece))) (piece_cells (moved gravity m piece))"
    "wf_cells (pit_cells pit1)" "rows_ok pit1" "length (pit_cols pit1) = nat WIDTH"
    "cols_ok pit \<longrightarrow>
       below_DEPTH (map (absolute (piece_xy (moved gravity m piece)))
                      (piece_cells (moved gravity m piece))) \<longrightarrow> cols_ok pit1"
    by blast
  have "locked pit piece = Some pit1"
    by (simp add: locked_def m(1) p(1))
  with m(1) p show ?thesis by blast
qed

text \<open>
  C1, amended. When a piece with at least one cell and pairwise different offsets is handed
  to \<^verbatim>\<open>drop\<close> in a position where it fits, on a pit with a well-formed occupancy map and
  consistent row counters, \<^verbatim>\<open>drop\<close> returns a number: the number of rows that are
  fully occupied once the piece is merged (the rows the lock completes), which is 0 when no
  row was completed.
\<close>

theorem drop_returns_count:
  assumes "wf_cells (pit_cells pit)" and "pit_rows pit = rows_of (pit_cells pit)"
    and "length (pit_cols pit) = nat WIDTH"
    and "fits piece pit" and "distinct (offsets piece)" and "piece_cells piece \<noteq> []"
  shows "\<exists>pit1. locked pit piece = Some pit1
           \<and> drop_return pit piece = Some (Number (int (length (full_rows (pit_cells pit1)))))
           \<and> (full_rows (pit_cells pit1) = [] \<longrightarrow> drop_return pit piece = Some (Number 0))"
proof -
  have ro: "rows_ok pit" using assms(2) by (simp add: rows_ok_def)
  from locked_fits [OF assms(1) ro assms(3-6)]
  obtain pit1 where p: "locked pit piece = Some pit1" "wf_cells (pit_cells pit1)"
    "rows_ok pit1" "length (pit_cols pit1) = nat WIDTH" by blast
  from cleanup_total [OF p(2,4)]
  obtain pit' where c: "cleanup pit1 = Some (int (length (completed pit1)), pit')" by blast
  have "completed pit1 = full_rows (pit_cells pit1)"
    by (rule completed_full_rows [OF p(2,3)])
  with c have "drop_return pit piece =
      Some (Number (int (length (full_rows (pit_cells pit1)))))"
    by (simp add: drop_return_def drop_piece_def p(1))
  with p(1) show ?thesis by auto
qed

lemma o_run: "drops any_drop o_pieces new_Pit = Some o_pit"
  by code_simp

lemma o_lock: "fits last_o o_pit \<and> locked o_pit last_o = Some o_locked"
  by code_simp

lemma o_clear: "completed o_locked = [0, 1] \<and> cleanup o_locked = Some (2, o_cleared)"
  by code_simp

theorem drop_returns_count_witness:
  "wf_cells (pit_cells o_pit) \<and> pit_rows o_pit = rows_of (pit_cells o_pit)
   \<and> length (pit_cols o_pit) = nat WIDTH \<and> fits last_o o_pit
   \<and> distinct (offsets last_o) \<and> piece_cells last_o \<noteq> []
   \<and> locked o_pit last_o = Some o_locked
   \<and> full_rows (pit_cells o_locked) = [0, 1]
   \<and> drop_return o_pit last_o = Some (Number 2)"
proof -
  have h1: "wf_cells (pit_cells o_pit)" by code_simp
  have h2: "pit_rows o_pit = rows_of (pit_cells o_pit)" by code_simp
  have h3: "length (pit_cols o_pit) = nat WIDTH" by code_simp
  have h4: "fits last_o o_pit" using o_lock by simp
  have h5: "distinct (offsets last_o)" by code_simp
  have h6: "piece_cells last_o \<noteq> []" by code_simp
  have f: "full_rows (pit_cells o_locked) = [0, 1]" by code_simp
  from drop_returns_count [OF h1 h2 h3 h4 h5 h6]
  obtain pit1 where p: "locked o_pit last_o = Some pit1"
    "drop_return o_pit last_o = Some (Number (int (length (full_rows (pit_cells pit1)))))"
    by blast
  from p o_lock have "pit1 = o_locked" by simp
  with p f have "drop_return o_pit last_o = Some (Number 2)" by simp
  with h1 h2 h3 h4 h5 h6 f o_lock show ?thesis by simp
qed

text \<open>
  C1, as stated, fails. After the five drops of \<open>o_pieces\<close> the fifth \<^verbatim>\<open>o\<close> completes
  and clears rows 0 and 1, and \<^verbatim>\<open>drop\<close> returns the number 2, not the list of the two
  row indices.
\<close>

theorem drop_returns_list_counterexample:
  "drops any_drop o_pieces new_Pit = Some o_pit
   \<and> fits last_o o_pit
   \<and> locked o_pit last_o = Some o_locked
   \<and> completed o_locked = [0, 1]
   \<and> drop_piece o_pit last_o = Some (2, o_cleared)
   \<and> drop_return o_pit last_o = Some (Number 2)
   \<and> drop_return o_pit last_o \<noteq> Some (Array [0, 1])"
proof -
  have "drop_piece o_pit last_o = Some (2, o_cleared)"
    using o_lock o_clear by (simp add: drop_piece_def)
  then show ?thesis
    using o_run o_lock o_clear by (simp add: drop_return_def)
qed

text \<open>
  The clearing step on adjacent rows. For every grid state with a well-formed occupancy map
  and consistent row counters in which a lock has completed exactly \<open>k \<ge> 1\<close> rows that are
  adjacent (the rows \<open>lo, \<dots>, lo + k - 1\<close>), the clearing step returns \<open>k\<close>, the number of
  occupied cells decreases by exactly \<open>k \<times> WIDTH\<close>, and the cells afterwards are the cells
  outside the cleared rows, in their order, each with \<open>y\<close> reduced by exactly \<open>k\<close> when it
  was above row \<open>lo\<close> and with unchanged coordinates when it was below.
\<close>

lemma clearing_adjacent_rows:
  assumes "wf_cells (pit_cells pit)" and "pit_rows pit = rows_of (pit_cells pit)"
    and "length (pit_cols pit) = nat WIDTH"
    and "completed pit = [lo..<lo + k]" and "0 < k"
  shows "\<exists>pit'. cleanup pit = Some (int k, pit')
           \<and> int (length (pit_cells pit')) = int (length (pit_cells pit)) - int k * WIDTH
           \<and> pit_cells pit' =
               map (shift_down lo k)
                 (filter (\<lambda>(p, c). snd p \<notin> int ` {lo..<lo + k}) (pit_cells pit))"
proof -
  have ro: "rows_ok pit" using assms(2) by (simp add: rows_ok_def)
  from cleanup_adjacent [OF assms(1) ro assms(3-5)]
  show ?thesis by (auto simp: case_prod_unfold)
qed

lemma clearing_adjacent_rows_example:
  "wf_cells (pit_cells o_locked)
   \<and> pit_rows o_locked = rows_of (pit_cells o_locked)
   \<and> length (pit_cols o_locked) = nat WIDTH
   \<and> completed o_locked = [0..<0 + 2]
   \<and> length (pit_cells o_locked) = 24
   \<and> (\<exists>pit'. cleanup o_locked = Some (2, pit')
         \<and> length (pit_cells pit') = 4
         \<and> pit_cells pit' = cells_at ''t'' ''right'' [(1, 1), (0, 1), (2, 1), (1, 0)])"
proof -
  have h1: "wf_cells (pit_cells o_locked)" by code_simp
  have h2: "pit_rows o_locked = rows_of (pit_cells o_locked)" by code_simp
  have h3: "length (pit_cols o_locked) = nat WIDTH" by code_simp
  have h4: "completed o_locked = [0..<0 + 2]" using o_clear by (simp add: upt_rec)
  have h5: "(0::nat) < 2" by simp
  have n: "length (pit_cells o_locked) = 24" by code_simp
  have m: "map (shift_down 0 2)
             (filter (\<lambda>(p, c). snd p \<notin> int ` {0..<0 + 2}) (pit_cells o_locked)) =
           cells_at ''t'' ''right'' [(1, 1), (0, 1), (2, 1), (1, 0)]"
    by code_simp
  from clearing_adjacent_rows [OF h1 h2 h3 h4 h5]
  obtain pit' where p: "cleanup o_locked = Some (int 2, pit')"
    "int (length (pit_cells pit')) = int (length (pit_cells o_locked)) - int 2 * WIDTH"
    "pit_cells pit' = map (shift_down 0 2)
       (filter (\<lambda>(p, c). snd p \<notin> int ` {0..<0 + 2}) (pit_cells o_locked))"
    by blast
  from p(2) n have "length (pit_cells pit') = 4" by (simp add: WIDTH_def)
  moreover from p(3) m have "pit_cells pit' = cells_at ''t'' ''right'' [(1, 1), (0, 1), (2, 1), (1, 0)]"
    by simp
  ultimately show ?thesis using h1 h2 h3 h4 n p(1) by auto
qed

lemma gapped_run: "drops any_drop gapped_pieces new_Pit = Some gapped_pit"
  by code_simp

lemma gapped_lock: "fits upright_i gapped_pit \<and> locked gapped_pit upright_i = Some gapped_locked"
  by code_simp

lemma gapped_clear:
  "completed gapped_locked = [1, 3] \<and> cleanup gapped_locked = Some (2, gapped_cleared)"
  by code_simp

text \<open>
  C2. The code breaks the claim where the completed rows are not adjacent. On
  \<open>gapped_pit\<close>, reached by ten drops, the upright \<^verbatim>\<open>i\<close> completes rows 1 and 3 and
  leaves row 2 with eight cells. The state after the lock is well formed with consistent row
  counters and holds 36 cells. \<^verbatim>\<open>_removeCompletedRows\<close> takes the rows 3 and 1 out of
  the row counters one at a time, so that the counters afterwards stand for the 16 cells the
  claim asks for, but it moves every cell above row 1 down by the total of two: the eight
  cells of row 2 land on row 0 and replace its eight cells, and the occupancy map holds 8
  cells, not \<open>36 - 2 \<times> WIDTH = 16\<close>.
\<close>

theorem clearing_gap_overwrites_row:
  "drops any_drop gapped_pieces new_Pit = Some gapped_pit
   \<and> fits upright_i gapped_pit
   \<and> locked gapped_pit upright_i = Some gapped_locked
   \<and> wf_cells (pit_cells gapped_locked)
   \<and> pit_rows gapped_locked = rows_of (pit_cells gapped_locked)
   \<and> completed gapped_locked = [1, 3]
   \<and> cleanup gapped_locked = Some (2, gapped_cleared)
   \<and> length (pit_cells gapped_locked) = 36
   \<and> sum_list (pit_rows gapped_cleared) = 16
   \<and> length (pit_cells gapped_cleared) = 8
   \<and> int (length (pit_cells gapped_cleared)) \<noteq> int (length (pit_cells gapped_locked)) - 2 * WIDTH"
proof -
  have a: "wf_cells (pit_cells gapped_locked)" by code_simp
  have b: "pit_rows gapped_locked = rows_of (pit_cells gapped_locked)" by code_simp
  have c: "length (pit_cells gapped_locked) = 36" by code_simp
  have d: "length (pit_cells gapped_cleared) = 8" by code_simp
  have e: "sum_list (pit_rows gapped_cleared) = 16" by code_simp
  from a b c d e gapped_run gapped_lock gapped_clear show ?thesis by (simp add: WIDTH_def)
qed

lemma drop_plain:
  assumes wf: "wf_cells (pit_cells pit)" and bd: "below_DEPTH (pit_cells pit)"
    and ro: "rows_ok pit" and co: "cols_ok pit"
    and fit: "fits piece pit" and ok: "plain_drop pit piece"
    and dr: "drop_piece pit piece = Some (r, pit')"
  shows "wf_cells (pit_cells pit') \<and> below_DEPTH (pit_cells pit')
           \<and> rows_ok pit' \<and> cols_ok pit'"
proof -
  have len: "length (pit_cols pit) = nat WIDTH" using co by (simp add: cols_ok_def)
  from ok obtain q where q: "landed pit piece = Some q"
    by (auto simp: plain_drop_def split: option.splits)
  then have ne: "piece_cells piece \<noteq> []"
    by (auto simp: landed_def split: option.splits dest: while_fits_Some_cells)
  have dist: "distinct (offsets piece)" using ok by (simp add: plain_drop_def)
  from locked_fits [OF wf ro len fit dist ne] q
  obtain pit1 where p: "locked pit piece = Some pit1"
    "pit_cells pit1 = pit_cells pit @ map (absolute (piece_xy q)) (piece_cells q)"
    "wf_cells (pit_cells pit1)" "rows_ok pit1" "length (pit_cols pit1) = nat WIDTH"
    "cols_ok pit \<longrightarrow> below_DEPTH (map (absolute (piece_xy q)) (piece_cells q)) \<longrightarrow> cols_ok pit1"
    by auto
  have bq: "below_DEPTH (map (absolute (piece_xy q)) (piece_cells q))"
    using ok q by (simp add: plain_drop_def)
  have co1: "cols_ok pit1" using p(6) co bq by simp
  have bd1: "below_DEPTH (pit_cells pit1)"
    using bd bq by (simp add: p(2) below_DEPTH_def)
  have adj: "adjacent (completed pit1)" using ok p(1) by (simp add: plain_drop_def)
  have cl: "cleanup pit1 = Some (r, pit')"
    using dr by (simp add: drop_piece_def p(1))
  show ?thesis
  proof (cases "completed pit1 = []")
    case True
    then have "pit' = pit1" using cl by (simp add: cleanup_no_rows)
    then show ?thesis using p(3,4) co1 bd1 by simp
  next
    case False
    define lo where "lo = hd (completed pit1)"
    define k where "k = length (completed pit1)"
    have c: "completed pit1 = [lo..<lo + k]"
      using adjacentD [OF adj False] by (simp add: lo_def k_def)
    have k: "0 < k" using False by (simp add: k_def)
    from cleanup_adjacent [OF p(3,4,5) c k] cl
    have new: "pit_cells pit' =
         map (shift_down lo k)
           (filter (\<lambda>pc. snd (fst pc) \<notin> int ` {lo..<lo + k}) (pit_cells pit1))"
      "pit_rows pit' = take lo (pit_rows pit1) @ drop (lo + k) (pit_rows pit1) @ replicate k 0"
      "wf_cells (pit_cells pit')" "cols_ok pit'" by auto
    have top: "lo + k \<le> nat DEPTH"
    proof -
      have "lo + k - 1 \<in> set (completed pit1)" using k by (simp add: c)
      then have "lo + k - 1 < nat DEPTH" by (simp add: completed_mem)
      then show ?thesis using k by simp
    qed
    have r1: "pit_rows pit1 = rows_of (pit_cells pit1)" using p(4) by (simp add: rows_ok_def)
    from rows_after_shift [OF p(3) bd1 top k]
    have "rows_ok pit'" "below_DEPTH (pit_cells pit')"
      by (simp_all add: rows_ok_def new(1,2) r1)
    with new(3,4) show ?thesis by simp
  qed
qed

lemma drops_plain:
  assumes "drops plain_drop ps pit = Some pit'"
    and "wf_cells (pit_cells pit)" "below_DEPTH (pit_cells pit)" "rows_ok pit" "cols_ok pit"
  shows "wf_cells (pit_cells pit') \<and> below_DEPTH (pit_cells pit')
           \<and> rows_ok pit' \<and> cols_ok pit'"
  using assms
proof (induction ps arbitrary: pit)
  case Nil
  then show ?case by simp
next
  case (Cons piece ps)
  from Cons.prems(1) have fit: "fits piece pit" and ok: "plain_drop pit piece"
    by (simp_all split: if_splits)
  from Cons.prems(1) fit ok obtain r pit1 where
    d: "drop_piece pit piece = Some (r, pit1)" and rest: "drops plain_drop ps pit1 = Some pit'"
    by (auto split: option.splits)
  from drop_plain [OF Cons.prems(2-5) fit ok d]
  have "wf_cells (pit_cells pit1)" "below_DEPTH (pit_cells pit1)" "rows_ok pit1" "cols_ok pit1"
    by simp_all
  from Cons.IH [OF rest this] show ?case .
qed

lemma new_Pit_inv:
  "wf_cells (pit_cells new_Pit)" "below_DEPTH (pit_cells new_Pit)"
  "rows_ok new_Pit" "cols_ok new_Pit"
  by (simp_all add: new_Pit_def wf_cells_def below_DEPTH_def rows_ok_def cols_ok_def
      rows_of_def cols_of_def map_replicate_const)

text \<open>
  C3, amended. For every grid state reached from the empty grid by drops of fitting pieces
  with pairwise different offsets, each of which comes to rest entirely below
  \<^verbatim>\<open>DEPTH\<close> and completes only adjacent rows, the caches are the ones recomputed
  from the occupancy map: \<^verbatim>\<open>rows[y]\<close> is the number of occupied cells with that \<open>y\<close>,
  and \<^verbatim>\<open>cols[x]\<close> is one plus the largest occupied \<open>y\<close> in column \<open>x\<close>, or 0.
\<close>

theorem caches_consistent:
  assumes "drops plain_drop ps new_Pit = Some pit"
  shows "pit_rows pit = rows_of (pit_cells pit) \<and> pit_cols pit = cols_of (pit_cells pit)"
  using drops_plain [OF assms new_Pit_inv] by (simp add: rows_ok_def cols_ok_def)

lemma drops_append:
  "drops ok (ps @ qs) pit =
     (case drops ok ps pit of None \<Rightarrow> None | Some pit' \<Rightarrow> drops ok qs pit')"
  by (induction ps arbitrary: pit) (auto split: option.splits)

theorem caches_consistent_witness:
  "drops plain_drop (o_pieces @ [last_o]) new_Pit = Some o_cleared
   \<and> pit_rows o_cleared = rows_of (pit_cells o_cleared)
   \<and> pit_cols o_cleared = cols_of (pit_cells o_cleared)"
proof -
  have h: "drops plain_drop (o_pieces @ [last_o]) new_Pit = Some o_cleared"
    by code_simp
  with caches_consistent [OF h] show ?thesis by simp
qed

text \<open>
  C3, as stated, fails in two ways. After the eight drops of \<open>tower_pieces\<close> the
  \<^verbatim>\<open>u\<close> piece is locked with a cell in row 16, which the guard
  \<^verbatim>\<open>xy.y < Game.DEPTH\<close> keeps out of \<^verbatim>\<open>cols\<close>: \<^verbatim>\<open>cols[4]\<close> is 16 and the
  column reaches 17. After \<open>gapped_pieces\<close> and the upright \<^verbatim>\<open>i\<close>, rows 1 and 3 are
  removed, the cells of row 2 are moved down by two onto row 0, and \<^verbatim>\<open>rows[1]\<close> is 8
  with no cell left in row 1.
\<close>

theorem caches_consistent_counterexample:
  "drops any_drop tower_pieces new_Pit = Some tower_pit
   \<and> pit_cols tower_pit \<noteq> cols_of (pit_cells tower_pit)
   \<and> pit_cols tower_pit ! 4 = 16 \<and> cols_of (pit_cells tower_pit) ! 4 = 17
   \<and> drops any_drop (gapped_pieces @ [upright_i]) new_Pit = Some gapped_cleared
   \<and> pit_rows gapped_cleared \<noteq> rows_of (pit_cells gapped_cleared)
   \<and> pit_rows gapped_cleared ! 1 = 8 \<and> rows_of (pit_cells gapped_cleared) ! 1 = 0"
proof -
  have a: "drops any_drop tower_pieces new_Pit = Some tower_pit" by code_simp
  have b: "pit_cols tower_pit ! 4 = 16 \<and> cols_of (pit_cells tower_pit) ! 4 = 17"
    by code_simp
  have c: "drop_piece gapped_pit upright_i = Some (2, gapped_cleared)"
    using gapped_lock gapped_clear by (simp add: drop_piece_def)
  have d: "drops any_drop (gapped_pieces @ [upright_i]) new_Pit = Some gapped_cleared"
    using gapped_run gapped_lock c by (simp add: drops_append any_drop_def)
  have e: "pit_rows gapped_cleared ! 1 = 8 \<and> rows_of (pit_cells gapped_cleared) ! 1 = 0"
    by code_simp
  have "pit_cols tower_pit \<noteq> cols_of (pit_cells tower_pit)"
  proof
    assume "pit_cols tower_pit = cols_of (pit_cells tower_pit)"
    with b show False by auto
  qed
  moreover have "pit_rows gapped_cleared \<noteq> rows_of (pit_cells gapped_cleared)"
  proof
    assume "pit_rows gapped_cleared = rows_of (pit_cells gapped_cleared)"
    with e show False by auto
  qed
  ultimately show ?thesis using a b d e by simp
qed



section \<open>Properties of the score\<close>

lemma fold_score_cell:
  "fold (score_cell pit) cs (n, h, w) =
     (n + int (length cs),
      h + (\<Sum>pc\<leftarrow>cs. if hole_below (pit_cells pit) pc then 1 else 0),
      w + (\<Sum>pc\<leftarrow>cs. snd (cell_xy (snd pc)) + 1))"
  by (induction cs arbitrary: n h w)
     (simp_all add: score_cell_def hole_below_def Let_def)

lemma getScore_sum:
  assumes "pit_cols pit \<noteq> []"
  shows "getScore pit =
     Num ((\<Sum>pc\<leftarrow>pit_cells pit. cell_score (pit_cells pit) pc) + col_score (pit_cols pit))"
proof -
  obtain c cs where cols: "pit_cols pit = c # cs" using assms by (cases "pit_cols pit") auto
  have s: "(\<Sum>pc\<leftarrow>xs. cell_score (pit_cells pit) pc) =
      20 * (\<Sum>pc\<leftarrow>xs. if hole_below (pit_cells pit) pc then 1 else 0)
      + int (length xs) + (\<Sum>pc\<leftarrow>xs. snd (cell_xy (snd pc)) + 1)" for xs
    by (induction xs) (simp_all add: cell_score_def)
  show ?thesis
    unfolding getScore_def cols list.case
    by (simp add: fold_score_cell [of pit _ 0 0 0] s col_score_def cols
        case_prod_unfold Let_def)
qed

lemma sum_list_remove_key:
  assumes "distinct (map fst cs)" and "(k, v) \<in> set cs"
  shows "(\<Sum>pc\<leftarrow>filter (\<lambda>(p, c). p \<noteq> k) cs. (f pc :: int)) = (\<Sum>pc\<leftarrow>cs. f pc) - f (k, v)"
  using assms
proof (induction cs)
  case Nil
  then show ?case by simp
next
  case (Cons a cs)
  show ?case
  proof (cases "a = (k, v)")
    case True
    then have "k \<notin> fst ` set cs" using Cons.prems(1) by auto
    then have "filter (\<lambda>(p, c). p \<noteq> k) cs = cs"
      by (force simp: filter_id_conv image_iff)
    with True show ?thesis by simp
  next
    case False
    then have m: "(k, v) \<in> set cs" using Cons.prems(2) by simp
    then have "fst a \<noteq> k" using Cons.prems(1) by (auto simp: image_iff)
    moreover have "distinct (map fst cs)" using Cons.prems(1) by simp
    ultimately show ?thesis using Cons.IH [OF _ m] by (simp add: case_prod_unfold)
  qed
qed

lemma sum_list_indicator_key:
  assumes "distinct (map fst cs)" and "(k, v) \<in> set cs"
  shows "(\<Sum>pc\<leftarrow>cs. if fst pc = k then (1::int) else 0) = 1"
  using assms
proof (induction cs)
  case Nil
  then show ?case by simp
next
  case (Cons a cs)
  show ?case
  proof (cases "fst a = k")
    case True
    then have "k \<notin> fst ` set cs" using Cons.prems(1) by auto
    then have "(\<Sum>pc\<leftarrow>cs. if fst pc = k then (1::int) else 0) = 0"
      by (induction cs) auto
    with True show ?thesis by simp
  next
    case False
    then have "(k, v) \<in> set cs" using Cons.prems(2) by auto
    with Cons.IH Cons.prems(1) False show ?thesis by simp
  qed
qed


lemma map_of_filter_key:
  "map_of (filter (\<lambda>(p, c). p \<noteq> k) cs) z = (if z = k then None else map_of cs z)"
  by (induction cs) auto

text \<open>
  C6, as stated, fails. \<^verbatim>\<open>getScore\<close> counts a hole only under the cell that covers it
  directly. The grid with the cells \<open>(0, 1)\<close> and \<open>(0, 2)\<close> has the hole \<open>(0, 0)\<close> and the
  score 36; without the cell \<open>(0, 1)\<close> it has the additional hole \<open>(0, 1)\<close>, the same
  column heights, and the score 33.
\<close>

theorem hole_monotonicity_counterexample:
  "pit_cells (remove_cell (0, 0) column_pit) = cells_at ''i'' ''right'' [(0, 2), (0, 1)]
   \<and> pit_cells (remove_cell (0, 1) (remove_cell (0, 0) column_pit)) =
       cells_at ''i'' ''right'' [(0, 2)]
   \<and> pit_cols (remove_cell (0, 1) (remove_cell (0, 0) column_pit)) =
       pit_cols (remove_cell (0, 0) column_pit)
   \<and> spec_holes (pit_cells (remove_cell (0, 0) column_pit)) = [(0, 0)]
   \<and> spec_holes (pit_cells (remove_cell (0, 1) (remove_cell (0, 0) column_pit))) =
       [(0, 0), (0, 1)]
   \<and> getScore (remove_cell (0, 0) column_pit) = Num 36
   \<and> getScore (remove_cell (0, 1) (remove_cell (0, 0) column_pit)) = Num 33
   \<and> \<not> js_less (getScore (remove_cell (0, 0) column_pit))
           (getScore (remove_cell (0, 1) (remove_cell (0, 0) column_pit)))"
proof -
  have a: "pit_cells (remove_cell (0, 0) column_pit) = cells_at ''i'' ''right'' [(0, 2), (0, 1)]
   \<and> pit_cells (remove_cell (0, 1) (remove_cell (0, 0) column_pit)) =
       cells_at ''i'' ''right'' [(0, 2)]
   \<and> pit_cols (remove_cell (0, 1) (remove_cell (0, 0) column_pit)) =
       pit_cols (remove_cell (0, 0) column_pit)"
    by code_simp
  have b: "spec_holes (pit_cells (remove_cell (0, 0) column_pit)) = [(0, 0)]
   \<and> spec_holes (pit_cells (remove_cell (0, 1) (remove_cell (0, 0) column_pit))) =
       [(0, 0), (0, 1)]"
    by code_simp
  have c: "getScore (remove_cell (0, 0) column_pit) = Num 36" by code_simp
  have d: "getScore (remove_cell (0, 1) (remove_cell (0, 0) column_pit)) = Num 33"
    by code_simp
  from a b c d show ?thesis by simp
qed

text \<open>
  C6, amended. Take two grids with the same column heights that are identical except for
  one cell \<open>(x, y)\<close>, occupied in the first and empty in the second, where the cell directly
  above it is occupied and directly below it is the floor or an occupied cell (so the second
  grid has exactly the one additional hole \<open>(x, y)\<close>, and every other cell is covered as
  before). Then \<^verbatim>\<open>getScore\<close> of the second grid is that of the first plus \<open>18 - y\<close>
  (20 for the hole, less 1 for the cell count and \<open>y + 1\<close> for the weight), which is
  strictly greater for every \<open>y\<close> below 18, so for every row of the grid.
\<close>

theorem one_more_hole_score:
  assumes dist: "distinct (map fst (pit_cells A))"
    and sync: "list_all (\<lambda>(p, c). cell_xy c = p) (pit_cells A)"
    and cols: "pit_cols A \<noteq> []"
    and y0: "0 \<le> y"
    and occ: "map_of (pit_cells A) (x, y) \<noteq> None"
    and above: "map_of (pit_cells A) (x, y + 1) \<noteq> None"
    and below: "y = 0 \<or> map_of (pit_cells A) (x, y - 1) \<noteq> None"
  shows "map_of (pit_cells (remove_cell (x, y) A)) (x, y) = None
         \<and> map_of (pit_cells (remove_cell (x, y) A)) (x, y + 1) \<noteq> None
         \<and> (\<exists>a. getScore A = Num a \<and> getScore (remove_cell (x, y) A) = Num (a + 18 - y))
         \<and> (y < 18 \<longrightarrow> js_less (getScore A) (getScore (remove_cell (x, y) A)))"
proof -
  let ?cs = "pit_cells A"
  let ?k = "(x, y)"
  let ?cs' = "filter (\<lambda>(p, c). p \<noteq> ?k) ?cs"
  let ?B = "remove_cell ?k A"
  from occ obtain v where v: "(?k, v) \<in> set ?cs" by (auto dest: map_of_SomeD)
  from above obtain u where u: "((x, y + 1), u) \<in> set ?cs" by (auto dest: map_of_SomeD)
  have xy: "cell_xy (snd pc) = fst pc" if "pc \<in> set ?cs" for pc
    using sync that by (auto simp: list_all_iff)
  have cB: "pit_cells ?B = ?cs'" and oB: "pit_cols ?B = pit_cols A"
    by (simp_all add: remove_cell_def)
  have diff: "cell_score ?cs' pc = cell_score ?cs pc + 20 * (if fst pc = (x, y + 1) then 1 else 0)"
    if "pc \<in> set ?cs'" for pc
  proof -
    from that have m: "pc \<in> set ?cs" and nk: "fst pc \<noteq> ?k" by auto
    show ?thesis
    proof (cases "fst pc = (x, y + 1)")
      case True
      then have "hole_below ?cs' pc" "\<not> hole_below ?cs pc"
        using xy [OF m] y0 occ by (simp_all add: hole_below_def map_of_filter_key)
      with True show ?thesis by (simp add: cell_score_def)
    next
      case False
      then have "(fst (fst pc), snd (fst pc) - 1) \<noteq> ?k" by (auto simp: prod_eq_iff)
      then have "hole_below ?cs' pc = hole_below ?cs pc"
        using xy [OF m] by (auto simp add: hole_below_def map_of_filter_key)
      with False show ?thesis by (simp add: cell_score_def)
    qed
  qed
  have "(\<Sum>pc\<leftarrow>?cs'. cell_score ?cs' pc) =
        (\<Sum>pc\<leftarrow>?cs'. cell_score ?cs pc + 20 * (if fst pc = (x, y + 1) then 1 else 0))"
    using diff by (intro arg_cong [where f = sum_list] map_cong refl)
  also have "\<dots> = (\<Sum>pc\<leftarrow>?cs'. cell_score ?cs pc)
                   + 20 * (\<Sum>pc\<leftarrow>?cs'. if fst pc = (x, y + 1) then 1 else 0)"
    by (simp add: sum_list_addf sum_list_const_mult)
  also have "(\<Sum>pc\<leftarrow>?cs'. cell_score ?cs pc) = (\<Sum>pc\<leftarrow>?cs. cell_score ?cs pc) - cell_score ?cs (?k, v)"
    by (rule sum_list_remove_key [OF dist v])
  also have "cell_score ?cs (?k, v) = 2 + y"
    using xy [OF v] below by (auto simp: cell_score_def hole_below_def)
  also have "(\<Sum>pc\<leftarrow>?cs'. if fst pc = (x, y + 1) then (1::int) else 0) =
             (\<Sum>pc\<leftarrow>?cs. if fst pc = (x, y + 1) then 1 else 0)
             - (if fst (?k, v) = (x, y + 1) then 1 else 0)"
    by (rule sum_list_remove_key [OF dist v])
  also have "(\<Sum>pc\<leftarrow>?cs. if fst pc = (x, y + 1) then (1::int) else 0) = 1"
    by (rule sum_list_indicator_key [OF dist u])
  finally have sum: "(\<Sum>pc\<leftarrow>?cs'. cell_score ?cs' pc) = (\<Sum>pc\<leftarrow>?cs. cell_score ?cs pc) + 18 - y"
    by simp
  let ?a = "(\<Sum>pc\<leftarrow>?cs. cell_score ?cs pc) + col_score (pit_cols A)"
  have A: "getScore A = Num ?a" by (rule getScore_sum [OF cols])
  have "getScore ?B = Num ((\<Sum>pc\<leftarrow>pit_cells ?B. cell_score (pit_cells ?B) pc) + col_score (pit_cols ?B))"
    by (rule getScore_sum) (simp add: oB cols)
  then have B: "getScore ?B = Num (?a + 18 - y)"
    by (simp add: cB oB sum)
  have "map_of (pit_cells ?B) (x, y) = None" by (simp add: cB map_of_filter_key)
  moreover have "map_of (pit_cells ?B) (x, y + 1) \<noteq> None"
    using above by (simp add: cB map_of_filter_key)
  moreover have "y < 18 \<longrightarrow> js_less (getScore A) (getScore ?B)" by (simp add: A B)
  ultimately show ?thesis using A B by blast
qed


theorem one_more_hole_score_witness:
  "distinct (map fst (pit_cells column_pit))
   \<and> list_all (\<lambda>(p, c). cell_xy c = p) (pit_cells column_pit)
   \<and> pit_cols column_pit \<noteq> []
   \<and> map_of (pit_cells column_pit) (0, 1) \<noteq> None
   \<and> map_of (pit_cells column_pit) (0, 1 + 1) \<noteq> None
   \<and> map_of (pit_cells column_pit) (0, 1 - 1) \<noteq> None
   \<and> getScore column_pit = Num 18
   \<and> getScore (remove_cell (0, 1) column_pit) = Num 35
   \<and> js_less (getScore column_pit) (getScore (remove_cell (0, 1) column_pit))"
proof -
  have h1: "distinct (map fst (pit_cells column_pit))" by code_simp
  have h2: "list_all (\<lambda>(p, c). cell_xy c = p) (pit_cells column_pit)" by code_simp
  have h3: "pit_cols column_pit \<noteq> []" by code_simp
  have h4: "(0::int) \<le> 1" by simp
  have h5: "map_of (pit_cells column_pit) (0, 1) \<noteq> None" by code_simp
  have h6: "map_of (pit_cells column_pit) (0, 1 + 1) \<noteq> None" by code_simp
  have h7: "map_of (pit_cells column_pit) (0, 1 - 1) \<noteq> None" by code_simp
  have h7': "(1::int) = 0 \<or> map_of (pit_cells column_pit) (0, 1 - 1) \<noteq> None"
    using h7 by simp
  have s: "getScore column_pit = Num 18" by code_simp
  from one_more_hole_score [OF h1 h2 h3 h4 h5 h6 h7'] s
  have "getScore (remove_cell (0, 1) column_pit) = Num 35"
    "js_less (getScore column_pit) (getScore (remove_cell (0, 1) column_pit))"
    by auto
  with h1 h2 h3 h5 h6 h7 s show ?thesis by blast
qed

section \<open>Properties of the timers and of the coordinator\<close>

lemma engine_set_engine [simp]:
  "engine s (set_engine s e w) = e"
  "engine (other s) (set_engine s e w) = engine (other s) w"
  "engine s (set_engine (other s) e w) = engine s w"
  by (cases s; simp)+

lemma set_engine_fields [simp]:
  "INTERVAL_ENGINE (set_engine s e w) = INTERVAL_ENGINE w"
  "firstGameOver (set_engine s e w) = firstGameOver w"
  "overlays (set_engine s e w) = overlays w"
  by (cases s; simp)+


text \<open>
  C4, as stated, fails. The interval is the one global \<^verbatim>\<open>Game.INTERVAL_ENGINE\<close>,
  which every \<^verbatim>\<open>_start\<close> lowers. Alone, the right session starts its first piece
  with a period of 1000; when the left session has started a piece before, the same start
  gets 995.
\<close>

theorem shared_interval_counterexample:
  "eng_interval (engine RIGHT (start RIGHT new_World)) = Some 1000
   \<and> eng_interval (engine RIGHT (start RIGHT (start LEFT new_World))) = Some 995
   \<and> INTERVAL_ENGINE (start LEFT new_World) \<noteq> INTERVAL_ENGINE new_World"
  by (simp add: start_def new_World_def new_Engine_def)

text \<open>
  C4, amended. The tick interval is one value shared by both sessions. A \<^verbatim>\<open>_start\<close>
  of a session never changes the timer the other session is running. When the starting
  session has no timer, it gets one with the current shared interval and the shared
  interval drops by 5, so that the next start of the other session gets the lowered
  interval; when its timer is running, nothing changes.
\<close>

theorem start_shared_interval:
  "eng_interval (engine (other s) (start s w)) = eng_interval (engine (other s) w)
   \<and> (eng_interval (engine s w) = None \<longrightarrow>
        eng_interval (engine s (start s w)) = Some (INTERVAL_ENGINE w)
        \<and> INTERVAL_ENGINE (start s w) = INTERVAL_ENGINE w - 5)
   \<and> (eng_interval (engine s w) = None \<longrightarrow> eng_interval (engine (other s) w) = None \<longrightarrow>
        eng_interval (engine (other s) (start (other s) (start s w))) = Some (INTERVAL_ENGINE w - 5))
   \<and> (eng_interval (engine s w) \<noteq> None \<longrightarrow> start s w = w)"
  by (cases s) (auto simp: start_def)

theorem start_shared_interval_witness:
  "eng_interval (engine LEFT new_World) = None \<and> eng_interval (engine RIGHT new_World) = None
   \<and> eng_interval (engine LEFT (start LEFT new_World)) = Some 1000
   \<and> INTERVAL_ENGINE (start LEFT new_World) = 995
   \<and> eng_interval (engine RIGHT (start RIGHT (start LEFT new_World))) = Some 995
   \<and> start LEFT (start LEFT new_World) = start LEFT new_World"
proof -
  have a: "eng_interval (engine LEFT new_World) = None" "eng_interval (engine RIGHT new_World) = None"
    "INTERVAL_ENGINE new_World = 1000"
    by (simp_all add: new_World_def new_Engine_def)
  have b: "eng_interval (engine LEFT (start LEFT new_World)) \<noteq> None"
    using start_shared_interval [of LEFT new_World] a by simp
  show ?thesis
    using start_shared_interval [of LEFT new_World]
      start_shared_interval [of LEFT "start LEFT new_World"] a b by simp
qed

lemma set_engine_same: "set_engine s (engine s w) w = w"
  by (cases s) simp_all

lemma handleGameOver_recorded:
  "\<not> falsy (firstGameOver w) \<Longrightarrow> handleGameOver sid w = Some w"
  by (subst handleGameOver.simps) simp

lemma handleGameOver_first:
  assumes "falsy (firstGameOver w)" and "sid \<noteq> []"
  shows "handleGameOver sid w =
     Some (show_overlays
       (set_engine RIGHT (freeze False (engine RIGHT w))
          (set_engine LEFT (freeze False (engine LEFT w)) (w\<lparr>firstGameOver := Some sid\<rparr>))))"
proof -
  let ?w1 = "w\<lparr>firstGameOver := Some sid\<rparr>"
  let ?w2 = "set_engine LEFT (freeze False (engine LEFT ?w1)) ?w1"
  let ?w4 = "set_engine RIGHT (freeze False (engine RIGHT ?w2)) ?w2"
  have nf: "\<not> falsy (firstGameOver ?w2)" "\<not> falsy (firstGameOver ?w4)"
    using assms(2) by (simp_all add: falsy_def)
  have "handleGameOver sid w =
      Option.bind (handleGameOver (eng_scoreElementId (engine LEFT ?w2)) ?w2)
        (\<lambda>w3. let w4 = set_engine RIGHT (freeze False (engine RIGHT w3)) w3
              in Option.bind (handleGameOver (eng_scoreElementId (engine RIGHT w4)) w4)
                   (\<lambda>w5. Some (show_overlays w5)))"
    using assms(1) by (subst handleGameOver.simps) (simp add: Let_def)
  also have "\<dots> = Some (show_overlays ?w4)"
    by (simp only: handleGameOver_recorded [OF nf(1)] handleGameOver_recorded [OF nf(2)]
        Let_def Option.bind.simps)
  finally show ?thesis by simp
qed

text \<open>
  The first notification. With the two engines of \<^verbatim>\<open>App._start\<close> and no notification
  recorded yet, the first session \<open>s\<close> that ends its game by \<^verbatim>\<open>_setPlaying(false)\<close>
  leaves both sessions frozen, itself recorded as first and shown as loser, the other as
  winner; in the state reached, every further \<^verbatim>\<open>_setPlaying(false)\<close> and every further
  call of the handler returns this state unchanged.
\<close>

lemma first_game_over_freezes:
  assumes "firstGameOver w = None"
    and "eng_scoreElementId (engineLeft w) = ''score-left''"
    and "eng_scoreElementId (engineRight w) = ''score-right''"
  shows "\<exists>w'. setPlaying s False w = Some w'
     \<and> \<not> eng_playing (engineLeft w') \<and> \<not> eng_playing (engineRight w')
     \<and> eng_interval (engineLeft w') = None \<and> eng_interval (engineRight w') = None
     \<and> eng_piece (engineLeft w') = None \<and> eng_piece (engineRight w') = None
     \<and> eng_pit (engine (other s) w') = eng_pit (engine (other s) w)
     \<and> firstGameOver w' = Some (eng_scoreElementId (engine s w))
     \<and> overlays w' = overlays w @ [(side_name s, ''LOSER''), (side_name (other s), ''WINNER'')]
     \<and> (\<forall>t. setPlaying t False w' = Some w')
     \<and> (\<forall>sid. handleGameOver sid w' = Some w')"
proof -
  let ?w0 = "set_engine s (freeze False (engine s w)) w"
  let ?sid = "eng_scoreElementId (engine s w)"
  have sid: "?sid \<noteq> []" "eng_scoreElementId (engine s ?w0) = ?sid"
    using assms(2,3) by (cases s; simp add: freeze_def stop_def)+
  have f0: "falsy (firstGameOver ?w0)" using assms(1) by (simp add: falsy_def)
  let ?w' = "show_overlays
       (set_engine RIGHT (freeze False (engine RIGHT ?w0))
          (set_engine LEFT (freeze False (engine LEFT ?w0)) (?w0\<lparr>firstGameOver := Some ?sid\<rparr>)))"
  have "setPlaying s False w = handleGameOver (eng_scoreElementId (engine s ?w0)) ?w0"
    by (simp only: setPlaying_def Let_def not_False_eq_True if_True)
  also have "\<dots> = handleGameOver ?sid ?w0" by (simp only: sid(2))
  also have "\<dots> = Some ?w'" by (rule handleGameOver_first [OF f0 sid(1)])
  finally have run: "setPlaying s False w = Some ?w'" .
  have nf: "\<not> falsy (firstGameOver ?w')"
    using sid(1) by (simp add: show_overlays_def falsy_def)
  have later: "handleGameOver x ?w' = Some ?w'" for x
    by (rule handleGameOver_recorded [OF nf])
  have frozen: "freeze False (engine t ?w') = engine t ?w'" for t
    by (cases t; cases s) (simp_all add: show_overlays_def freeze_def stop_def)
  have again: "setPlaying t False ?w' = Some ?w'" for t
    by (simp only: setPlaying_def Let_def frozen set_engine_same later not_False_eq_True if_True)
  have fields: "\<not> eng_playing (engineLeft ?w')" "\<not> eng_playing (engineRight ?w')"
    "eng_interval (engineLeft ?w') = None" "eng_interval (engineRight ?w') = None"
    "eng_piece (engineLeft ?w') = None" "eng_piece (engineRight ?w') = None"
    "eng_pit (engine (other s) ?w') = eng_pit (engine (other s) w)"
    "firstGameOver ?w' = Some ?sid"
    by (cases s; simp add: show_overlays_def freeze_def stop_def)+
  have ov: "overlays ?w' = overlays w @ [(side_name s, ''LOSER''), (side_name (other s), ''WINNER'')]"
    using assms(2,3) by (cases s) (simp_all add: show_overlays_def freeze_def stop_def)
  from run fields ov again later show ?thesis by blast
qed


lemma setPlaying_recorded:
  assumes "\<not> falsy (firstGameOver w)"
  shows "setPlaying s p w = Some (set_engine s (freeze p (engine s w)) w)"
proof -
  have "\<not> falsy (firstGameOver (set_engine s (freeze p (engine s w)) w))"
    using assms by simp
  from handleGameOver_recorded [OF this] show ?thesis
    by (cases p) (simp_all add: setPlaying_def Let_def)
qed

lemma happen_recorded:
  assumes "\<not> falsy (firstGameOver w)"
  shows "\<exists>w'. happen ev w = Some w' \<and> firstGameOver w' = firstGameOver w
              \<and> overlays w' = overlays w"
proof (cases ev)
  case (Start s)
  then show ?thesis by (cases s) (simp_all add: start_def)
next
  case (SetPlaying s p)
  then show ?thesis by (simp add: setPlaying_recorded [OF assms])
next
  case (Notify sid)
  then show ?thesis by (simp add: handleGameOver_recorded [OF assms])
next
  case (Session s e)
  then show ?thesis by simp
qed

lemma happens_recorded:
  "\<not> falsy (firstGameOver w) \<Longrightarrow>
     \<exists>w'. happens evs w = Some w' \<and> firstGameOver w' = firstGameOver w
          \<and> overlays w' = overlays w"
proof (induction evs arbitrary: w)
  case Nil
  then show ?case by simp
next
  case (Cons ev evs)
  from happen_recorded [OF Cons.prems, of ev]
  obtain w1 where w1: "happen ev w = Some w1" "firstGameOver w1 = firstGameOver w"
    "overlays w1 = overlays w" by blast
  from Cons.prems w1(2) have "\<not> falsy (firstGameOver w1)" by simp
  from Cons.IH [OF this] w1 show ?case by auto
qed

text \<open>
  C5. With the two engines of \<^verbatim>\<open>App._start\<close> and no notification recorded yet, the
  first session \<open>s\<close> that ends its game by \<^verbatim>\<open>_setPlaying(false)\<close> leaves both sessions
  frozen (not playing, no timer, no piece; the pit of the other session is untouched,
  whatever room it has), itself recorded as first and shown as loser, the other as
  winner. In the state reached, every further \<^verbatim>\<open>_setPlaying(false)\<close> of either
  session and every further call of the handler returns this state unchanged. After any
  sequence of later events (a session starts its timer again, sets its playing flag,
  changes its own engine in any other way, or a notification arrives), the recorded session
  and the overlays are still the same, every notification returns the state it arrives in
  unchanged, and a \<^verbatim>\<open>_setPlaying(false)\<close> of a session does nothing but freeze that
  session's own engine.
\<close>

theorem first_game_over_authoritative:
  assumes "firstGameOver w = None"
    and "eng_scoreElementId (engineLeft w) = ''score-left''"
    and "eng_scoreElementId (engineRight w) = ''score-right''"
  shows "\<exists>w'. setPlaying s False w = Some w'
     \<and> \<not> eng_playing (engineLeft w') \<and> \<not> eng_playing (engineRight w')
     \<and> eng_interval (engineLeft w') = None \<and> eng_interval (engineRight w') = None
     \<and> eng_piece (engineLeft w') = None \<and> eng_piece (engineRight w') = None
     \<and> eng_pit (engine (other s) w') = eng_pit (engine (other s) w)
     \<and> firstGameOver w' = Some (eng_scoreElementId (engine s w))
     \<and> overlays w' = overlays w @ [(side_name s, ''LOSER''), (side_name (other s), ''WINNER'')]
     \<and> (\<forall>t. setPlaying t False w' = Some w')
     \<and> (\<forall>sid. handleGameOver sid w' = Some w')
     \<and> (\<forall>evs. \<exists>w''. happens evs w' = Some w''
           \<and> firstGameOver w'' = firstGameOver w' \<and> overlays w'' = overlays w'
           \<and> (\<forall>sid. handleGameOver sid w'' = Some w'')
           \<and> (\<forall>t. setPlaying t False w'' =
                    Some (set_engine t (freeze False (engine t w'')) w'')))"
proof -
  from first_game_over_freezes [OF assms, of s]
  obtain w' where w': "setPlaying s False w = Some w'"
     "\<not> eng_playing (engineLeft w')" "\<not> eng_playing (engineRight w')"
     "eng_interval (engineLeft w') = None" "eng_interval (engineRight w') = None"
     "eng_piece (engineLeft w') = None" "eng_piece (engineRight w') = None"
     "eng_pit (engine (other s) w') = eng_pit (engine (other s) w)"
     "firstGameOver w' = Some (eng_scoreElementId (engine s w))"
     "overlays w' = overlays w @ [(side_name s, ''LOSER''), (side_name (other s), ''WINNER'')]"
     "\<forall>t. setPlaying t False w' = Some w'"
     "\<forall>sid. handleGameOver sid w' = Some w'"
    by blast
  have "eng_scoreElementId (engine s w) \<noteq> []" using assms(2,3) by (cases s) simp_all
  with w'(9) have nf: "\<not> falsy (firstGameOver w')" by (simp add: falsy_def)
  have "\<exists>w''. happens evs w' = Some w''
           \<and> firstGameOver w'' = firstGameOver w' \<and> overlays w'' = overlays w'
           \<and> (\<forall>sid. handleGameOver sid w'' = Some w'')
           \<and> (\<forall>t. setPlaying t False w'' =
                    Some (set_engine t (freeze False (engine t w'')) w''))" for evs
  proof -
    from happens_recorded [OF nf, of evs]
    obtain w2 where w2: "happens evs w' = Some w2" "firstGameOver w2 = firstGameOver w'"
      "overlays w2 = overlays w'" by blast
    from nf w2(2) have nf2: "\<not> falsy (firstGameOver w2)" by simp
    from w2 handleGameOver_recorded [OF nf2] setPlaying_recorded [OF nf2]
    show ?thesis by blast
  qed
  with w' show ?thesis by blast
qed

theorem first_game_over_authoritative_witness:
  "firstGameOver running_World = None
   \<and> eng_scoreElementId (engineLeft running_World) = ''score-left''
   \<and> eng_scoreElementId (engineRight running_World) = ''score-right''
   \<and> eng_playing (engineRight running_World)
   \<and> eng_interval (engineRight running_World) = Some 1000
   \<and> (\<exists>w'. setPlaying LEFT False running_World = Some w'
         \<and> \<not> eng_playing (engineRight w') \<and> eng_interval (engineRight w') = None
         \<and> firstGameOver w' = Some ''score-left''
         \<and> overlays w' = [(''left'', ''LOSER''), (''right'', ''WINNER'')]
         \<and> setPlaying RIGHT False w' = Some w'
         \<and> (\<exists>w''. happens [Start RIGHT] w' = Some w''
               \<and> eng_interval (engineRight w'') \<noteq> None
               \<and> firstGameOver w'' = Some ''score-left''
               \<and> overlays w'' = [(''left'', ''LOSER''), (''right'', ''WINNER'')]
               \<and> handleGameOver ''score-right'' w'' = Some w''
               \<and> setPlaying RIGHT False w'' \<noteq> Some w''))"
proof -
  have h: "firstGameOver running_World = None"
    "eng_scoreElementId (engineLeft running_World) = ''score-left''"
    "eng_scoreElementId (engineRight running_World) = ''score-right''"
    by (simp_all add: running_World_def start_def new_World_def new_Engine_def)
  have r: "eng_playing (engineRight running_World)"
    "eng_interval (engineRight running_World) = Some 1000"
    "overlays running_World = []"
    by (simp_all add: running_World_def start_def new_World_def new_Engine_def)
  from first_game_over_authoritative [OF h, of LEFT]
  obtain w' where w': "setPlaying LEFT False running_World = Some w'"
    "\<not> eng_playing (engineRight w')" "eng_interval (engineRight w') = None"
    "firstGameOver w' = Some (eng_scoreElementId (engine LEFT running_World))"
    "overlays w' = overlays running_World @
       [(side_name LEFT, ''LOSER''), (side_name (other LEFT), ''WINNER'')]"
    "\<forall>t. setPlaying t False w' = Some w'"
    and later: "\<forall>evs. \<exists>w''. happens evs w' = Some w''
           \<and> firstGameOver w'' = firstGameOver w' \<and> overlays w'' = overlays w'
           \<and> (\<forall>sid. handleGameOver sid w'' = Some w'')
           \<and> (\<forall>t. setPlaying t False w'' =
                    Some (set_engine t (freeze False (engine t w'')) w''))"
    by blast
  have f: "firstGameOver w' = Some ''score-left''" using w'(4) h(2) by simp
  have o: "overlays w' = [(''left'', ''LOSER''), (''right'', ''WINNER'')]"
    using w'(5) r(3) by simp
  have again: "setPlaying RIGHT False w' = Some w'" using w'(6) by blast
  from later obtain w'' where w'': "happens [Start RIGHT] w' = Some w''"
    "firstGameOver w'' = firstGameOver w'" "overlays w'' = overlays w'"
    "\<forall>sid. handleGameOver sid w'' = Some w''"
    "\<forall>t. setPlaying t False w'' = Some (set_engine t (freeze False (engine t w'')) w'')"
    by blast
  from w''(1) have s: "w'' = start RIGHT w'" by simp
  have i: "eng_interval (engineRight w'') \<noteq> None"
    using w'(3) by (simp add: s start_def)
  have z: "eng_interval (engineRight (set_engine RIGHT (freeze False (engine RIGHT w'')) w'')) = None"
    by (simp add: freeze_def stop_def)
  have "set_engine RIGHT (freeze False (engine RIGHT w'')) w'' \<noteq> w''"
  proof
    assume "set_engine RIGHT (freeze False (engine RIGHT w'')) w'' = w''"
    from arg_cong [OF this, of "\<lambda>w. eng_interval (engineRight w)"] z i
    show False by simp
  qed
  with w''(5) have n: "setPlaying RIGHT False w'' \<noteq> Some w''" by simp
  from w''(4) have k: "handleGameOver ''score-right'' w'' = Some w''" by blast
  have f2: "firstGameOver w'' = Some ''score-left''" using w''(2) f by simp
  have o2: "overlays w'' = [(''left'', ''LOSER''), (''right'', ''WINNER'')]"
    using w''(3) o by simp
  from h r(1,2) w'(1,2,3) f o again w''(1) i f2 o2 k n show ?thesis by blast
qed

section \<open>Properties of \<^verbatim>\<open>clone()\<close> as a value\<close>

text \<open>
  On maps with pairwise different keys, which is what a JavaScript object is, the clone of
  a cell, a pit or a piece has the value of the original.
\<close>

lemma Cell_clone_id: "Cell_clone c = c"
  by (simp add: Cell_clone_def)

lemma clone_cells:
  assumes "distinct (map fst cs)"
  shows "fold (\<lambda>(p, cell) cells. AList.update p (Cell_clone cell) cells) cs [] = cs"
proof -
  have "fold (\<lambda>x m. AList.update (fst x) (snd x) m) cs [] = [] @ map (\<lambda>x. (fst x, snd x)) cs"
    by (rule fold_update_fresh) (simp_all add: assms)
  then show ?thesis by (simp add: case_prod_unfold Cell_clone_id)
qed

lemma Pit_clone_id: "distinct (map fst (pit_cells pit)) \<Longrightarrow> Pit_clone pit = pit"
  by (simp add: Pit_clone_def clone_cells)

lemma Piece_clone_id:
  assumes "distinct (map fst (piece_cells piece))" and "Piece_clone piece = Inr q"
  shows "q = piece"
proof -
  from assms(2) obtain c where c: "new_Piece (piece_type piece) (piece_pieceSet piece) = Inr c"
    and q: "q = c\<lparr>piece_xy := piece_xy piece, piece_cells := piece_cells piece\<rparr>"
    by (auto simp: Piece_clone_def clone_cells [OF assms(1)] split: sum.splits)
  from c have "piece_type c = piece_type piece" "piece_pieceSet c = piece_pieceSet piece"
    by (auto simp: new_Piece_def split: option.splits)
  with q show ?thesis by simp
qed

section \<open>Properties of the placement search\<close>

lemma random_mem:
  assumes "random u xs = Some v"
  shows "v \<in> set xs"
proof -
  let ?i = "\<lfloor>u * real (length xs)\<rfloor>"
  from assms have i: "0 \<le> ?i" "?i < int (length xs)" and v: "v = xs ! nat ?i"
    by (auto simp only: random_def Let_def split: if_splits)
  from i have "nat ?i < length xs" by linarith
  with v show ?thesis by simp
qed

lemma better_set: "set (snd (better s e acc)) \<subseteq> insert e (set (snd acc))"
  by (auto simp: better_def Let_def)

lemma scan_positions:
  assumes "scan pit piece acc = Some r"
  shows "\<forall>res. r = Inr res \<longrightarrow> (\<forall>v \<in> set (snd acc). fits_at pit piece v)
           \<longrightarrow> (\<forall>v \<in> set (snd res). fits_at pit piece v)"
proof (rule scan.raw_induct [where P = "\<lambda>pit piece acc r. \<forall>res. r = Inr res \<longrightarrow>
          (\<forall>v \<in> set (snd acc). fits_at pit piece v)
           \<longrightarrow> (\<forall>v \<in> set (snd res). fits_at pit piece v)", OF _ assms])
  fix f pit piece acc r
  assume ih: "\<And>pit piece acc r. f pit piece acc = Some r \<Longrightarrow>
      \<forall>res. r = Inr res \<longrightarrow> (\<forall>v \<in> set (snd acc). fits_at pit piece v)
           \<longrightarrow> (\<forall>v \<in> set (snd res). fits_at pit piece v)"
    and b: "(if fits piece pit
      then (case Piece_clone piece of
              Inl e \<Rightarrow> Some (Inl e)
            | Inr dropped \<Rightarrow>
                (case drop_piece (Pit_clone pit) dropped of
                   None \<Rightarrow> None
                 | Some res \<Rightarrow>
                     f pit (piece\<lparr>piece_xy := XY_minus (piece_xy piece) left\<rparr>)
                       (better (getScore (snd res)) (fst (piece_xy piece)) acc)))
      else Some (Inr acc)) = Some r"
  show "\<forall>res. r = Inr res \<longrightarrow> (\<forall>v \<in> set (snd acc). fits_at pit piece v)
           \<longrightarrow> (\<forall>v \<in> set (snd res). fits_at pit piece v)"
  proof (intro allI impI)
    fix res assume r: "r = Inr res" and a: "\<forall>v \<in> set (snd acc). fits_at pit piece v"
    show "\<forall>v \<in> set (snd res). fits_at pit piece v"
    proof (cases "fits piece pit")
      case False
      with b r have "res = acc" by simp
      with a show ?thesis by simp
    next
      case True
      let ?p = "piece\<lparr>piece_xy := XY_minus (piece_xy piece) left\<rparr>"
      from b True r obtain d res0 where
        call: "f pit ?p (better (getScore (snd res0)) (fst (piece_xy piece)) acc) = Some (Inr res)"
        by (auto split: sum.splits option.splits)
      have same: "fits_at pit ?p v = fits_at pit piece v" for v
        by (simp add: fits_at_def XY_minus_def left_def)
      have here: "fits_at pit piece (fst (piece_xy piece))"
        using True by (simp add: fits_at_def)
      have "\<forall>v \<in> set (snd (better (getScore (snd res0)) (fst (piece_xy piece)) acc)).
              fits_at pit ?p v"
        using better_set [of "getScore (snd res0)" "fst (piece_xy piece)" acc] a here
        by (auto simp: same)
      with ih [OF call] show ?thesis by (simp add: same)
    qed
  qed
qed

lemma left_dir: "fst left \<le> 0" "snd left \<le> 0" "fst left + snd left < 0"
  by (simp_all add: left_def)

lemma findBestPosition_fits:
  assumes "distinct (map fst (pit_cells pit))" and "distinct (map fst (piece_cells piece))"
    and "findBestPosition u pit piece = Some (Inr b)" and "best_x b = Some v"
  shows "fits (piece\<lparr>piece_xy := (v, DEPTH - 1)\<rparr>) pit"
proof -
  note pc = Pit_clone_id [OF assms(1)]
  from assms(3) obtain piece1 piece2 bs bp where
    c: "Piece_clone piece = Inr piece1"
    and w: "while_fits left pit (center piece1) = Some piece2"
    and s: "scan pit (piece2\<lparr>piece_xy := XY_minus (piece_xy piece2) left\<rparr>) (Infinity, []) =
              Some (Inr (bs, bp))"
    and b: "b = \<lparr>best_score = bs, best_x = random u bp, best_rotation = None\<rparr>"
    by (auto simp: findBestPosition_def pc Let_def split: sum.splits option.splits)
  have p1: "piece1 = piece" by (rule Piece_clone_id [OF assms(2) c])
  from while_fits_Some_cells [OF w] obtain p c0 where
    cell: "(p, c0) \<in> set (piece_cells (center piece))"
    by (cases "piece_cells (center piece)") (auto simp: p1)
  from while_fits_stops [OF cell left_dir refl, of pit] w
  obtain n where n: "piece2 = moved left n (center piece)" by (auto simp: p1)
  let ?start = "piece2\<lparr>piece_xy := XY_minus (piece_xy piece2) left\<rparr>"
  from assms(4) b have "v \<in> set bp" by (auto dest: random_mem)
  with scan_positions [OF s] have "fits_at pit ?start v" by simp
  moreover have "?start\<lparr>piece_xy := (v, snd (piece_xy ?start))\<rparr> =
      piece\<lparr>piece_xy := (v, DEPTH - 1)\<rparr>"
    by (simp add: n moved_def center_def XY_minus_def left_def)
  ultimately show ?thesis by (simp add: fits_at_def)
qed

lemma fold_update_distinct:
  "distinct (map fst acc) \<Longrightarrow>
     distinct (map fst (fold (\<lambda>x m. AList.update (f x) (g x) m) xs acc))"
  by (induction xs arbitrary: acc) (simp_all add: distinct_update)

lemma rotate_keys_distinct: "distinct (map fst (piece_cells (rotate_piece d p)))"
proof -
  have "distinct (map fst (fold (\<lambda>x m. AList.update
          (rotate_xy (rotate_sign d) (cell_xy (snd x)))
          ((snd x)\<lparr>cell_xy := rotate_xy (rotate_sign d) (cell_xy (snd x))\<rparr>) m)
        (piece_cells p) []))"
    by (rule fold_update_distinct) simp
  then show ?thesis by (simp add: rotate_piece_def Let_def case_prod_unfold)
qed

lemma funpow_rotate_keys_distinct:
  "distinct (map fst (piece_cells p)) \<Longrightarrow>
     distinct (map fst (piece_cells ((rotate_piece 1 ^^ i) p)))"
  by (cases i) (simp_all add: rotate_keys_distinct)

lemma try_rotation_good:
  assumes dpit: "distinct (map fst (pit_cells pit))"
    and dpiece: "distinct (map fst (piece_cells piece))"
    and step: "try_rotation us pit piece i (Some (Inr acc)) = Some (Inr res)"
    and inv: "\<forall>b \<in> set (snd acc). good_entry pit piece b"
  shows "\<forall>b \<in> set (snd res). good_entry pit piece b"
proof -
  from step obtain tmp current where
    c: "Piece_clone piece = Inr tmp"
    and f: "findBestPosition (us i) pit ((rotate_piece 1 ^^ i) tmp) = Some (Inr current)"
    and r: "res = better (best_score current) (current\<lparr>best_rotation := Some i\<rparr>) acc"
    by (auto simp: try_rotation_def split: sum.splits option.splits)
  have tmp: "tmp = piece" by (rule Piece_clone_id [OF dpiece c])
  have "good_entry pit piece (current\<lparr>best_rotation := Some i\<rparr>)"
    unfolding good_entry_def
  proof (intro allI impI)
    fix v j
    assume "best_x (current\<lparr>best_rotation := Some i\<rparr>) = Some v"
      and "best_rotation (current\<lparr>best_rotation := Some i\<rparr>) = Some j"
    then have x: "best_x current = Some v" and j: "j = i" by simp_all
    from findBestPosition_fits [OF dpit funpow_rotate_keys_distinct [OF dpiece] f [unfolded tmp] x]
    show "fits (((rotate_piece 1 ^^ j) piece)\<lparr>piece_xy := (v, DEPTH - 1)\<rparr>) pit"
      by (simp add: j)
  qed
  with inv better_set [of "best_score current" "current\<lparr>best_rotation := Some i\<rparr>" acc]
  show ?thesis unfolding r by auto
qed

lemma fold_try_rotation_stuck:
  "fold (try_rotation us pit piece) js None = None"
  "fold (try_rotation us pit piece) js (Some (Inl e)) = Some (Inl e)"
  by (induction js) (simp_all add: try_rotation_def)

lemma fold_try_rotation_good:
  assumes dpit: "distinct (map fst (pit_cells pit))"
    and dpiece: "distinct (map fst (piece_cells piece))"
  shows "fold (try_rotation us pit piece) js (Some (Inr acc)) = Some (Inr res) \<Longrightarrow>
         \<forall>b \<in> set (snd acc). good_entry pit piece b \<Longrightarrow>
         \<forall>b \<in> set (snd res). good_entry pit piece b"
proof (induction js arbitrary: acc)
  case Nil
  then show ?case by simp
next
  case (Cons j js)
  show ?case
  proof (cases "try_rotation us pit piece j (Some (Inr acc))")
    case None
    with Cons.prems(1) show ?thesis by (simp add: fold_try_rotation_stuck)
  next
    case (Some a)
    show ?thesis
    proof (cases a)
      case (Inl e)
      with Some Cons.prems(1) show ?thesis by (simp add: fold_try_rotation_stuck)
    next
      case (Inr acc')
      with Some have st: "try_rotation us pit piece j (Some (Inr acc)) = Some (Inr acc')" by simp
      from try_rotation_good [OF dpit dpiece st Cons.prems(2)]
      have "\<forall>b \<in> set (snd acc'). good_entry pit piece b" .
      moreover from Cons.prems(1) st
      have "fold (try_rotation us pit piece) js (Some (Inr acc')) = Some (Inr res)" by simp
      ultimately show ?thesis by (rule Cons.IH [rotated])
    qed
  qed
qed

lemma findBestPositionRotation_fits:
  assumes dpit: "distinct (map fst (pit_cells pit))"
    and dpiece: "distinct (map fst (piece_cells piece))"
    and res: "findBestPositionRotation us pit piece = Some (Inr (Some b))"
    and x: "best_x b = Some v" and rot: "best_rotation b = Some i"
  shows "fits (((rotate_piece 1 ^^ i) piece)\<lparr>piece_xy := (v, DEPTH - 1)\<rparr>) pit"
proof -
  from res obtain bs br where
    f: "fold (try_rotation us pit piece) [0..<4] (Some (Inr (Infinity, []))) = Some (Inr (bs, br))"
    and b: "random (us 4) br = Some b"
    by (auto simp: findBestPositionRotation_def split: sum.splits option.splits)
  from fold_try_rotation_good [OF dpit dpiece f]
  have "\<forall>b \<in> set br. good_entry pit piece b" by simp
  with random_mem [OF b] have "good_entry pit piece b" by blast
  with x rot show ?thesis by (simp add: good_entry_def)
qed

text \<open>
  Both searches return: on a grid with a well-formed occupancy map, consistent row
  counters and \<^verbatim>\<open>WIDTH\<close> columns, for a piece with at least one cell and pairwise
  different offsets, each loop ends (the scan moves a cell of the piece towards the right
  wall) and the result is an object or the error of the piece constructor.
\<close>

lemma scan_returns:
  assumes wf: "wf_cells (pit_cells pit)" and ro: "rows_ok pit"
    and len: "length (pit_cols pit) = nat WIDTH"
    and dk: "distinct (map fst (piece_cells piece))" and dist: "distinct (offsets piece)"
    and c: "(p, c) \<in> set (piece_cells piece)"
    and k: "k = nat (WIDTH - (fst (cell_xy c) + fst (piece_xy piece)))"
  shows "\<exists>r. scan pit piece acc = Some r"
  using dk dist c k
proof (induction k arbitrary: piece acc rule: less_induct)
  case (less k)
  show ?case
  proof (cases "fits piece pit")
    case False
    then show ?thesis by (subst scan.simps) simp
  next
    case True
    have pc: "Pit_clone pit = pit"
      using wf by (intro Pit_clone_id) (simp add: wf_cells_def)
    show ?thesis
    proof (cases "Piece_clone piece")
      case (Inl e)
      with True show ?thesis by (subst scan.simps) simp
    next
      case (Inr dropped)
      have d: "dropped = piece" by (rule Piece_clone_id [OF less.prems(1) Inr])
      have ne: "piece_cells piece \<noteq> []" using less.prems(3) by auto
      from locked_fits [OF wf ro len True less.prems(2) ne]
      obtain pit1 where p: "locked pit piece = Some pit1" "wf_cells (pit_cells pit1)"
        "length (pit_cols pit1) = nat WIDTH" by blast
      from cleanup_total [OF p(2,3)]
      obtain pit' where "cleanup pit1 = Some (int (length (completed pit1)), pit')" by blast
      with p(1) have dp: "drop_piece pit piece = Some (int (length (completed pit1)), pit')"
        by (simp add: drop_piece_def)
      let ?p = "piece\<lparr>piece_xy := XY_minus (piece_xy piece) left\<rparr>"
      let ?acc = "better (getScore pit') (fst (piece_xy piece)) acc"
      from fits_cell [OF True less.prems(3)]
      have lt: "fst (cell_xy c) + fst (piece_xy piece) < WIDTH" by simp
      have "\<exists>r. scan pit ?p ?acc = Some r"
      proof (rule less.IH [of "nat (WIDTH - (fst (cell_xy c) + fst (piece_xy ?p)))"])
        show "nat (WIDTH - (fst (cell_xy c) + fst (piece_xy ?p))) < k"
          using lt less.prems(4) by (simp add: XY_minus_def left_def)
        show "distinct (map fst (piece_cells ?p))" using less.prems(1) by simp
        show "distinct (offsets ?p)" using less.prems(2) by (simp add: offsets_def)
        show "(p, c) \<in> set (piece_cells ?p)" using less.prems(3) by simp
      qed simp
      with True Inr d dp pc show ?thesis by (subst scan.simps) simp
    qed
  qed
qed

lemma findBestPosition_returns:
  assumes wf: "wf_cells (pit_cells pit)" and ro: "rows_ok pit"
    and len: "length (pit_cols pit) = nat WIDTH"
    and dk: "distinct (map fst (piece_cells piece))" and dist: "distinct (offsets piece)"
    and ne: "piece_cells piece \<noteq> []"
  shows "\<exists>r. findBestPosition u pit piece = Some r"
proof -
  have pc: "Pit_clone pit = pit"
    using wf by (intro Pit_clone_id) (simp add: wf_cells_def)
  show ?thesis
  proof (cases "Piece_clone piece")
    case (Inl e)
    then show ?thesis by (simp add: findBestPosition_def)
  next
    case (Inr piece1)
    have p1: "piece1 = piece" by (rule Piece_clone_id [OF dk Inr])
    from ne obtain p c where c: "(p, c) \<in> set (piece_cells (center piece))"
      by (cases "piece_cells piece") (auto simp: center_def)
    from while_fits_stops [OF c left_dir refl, of pit]
    obtain n where n: "while_fits left pit (center piece) = Some (moved left n (center piece))"
      by blast
    let ?start = "(moved left n (center piece))
        \<lparr>piece_xy := XY_minus (piece_xy (moved left n (center piece))) left\<rparr>"
    have c': "(p, c) \<in> set (piece_cells ?start)" using c by (simp add: moved_def)
    have "\<exists>r. scan pit ?start (Infinity, []) = Some r"
      by (rule scan_returns [OF wf ro len _ _ c' refl])
         (use dk dist in \<open>simp_all add: moved_def center_def offsets_def\<close>)
    then obtain r where r: "scan pit ?start (Infinity, []) = Some r" by blast
    show ?thesis
      using Inr p1 n r
      by (cases r) (auto simp: findBestPosition_def pc Let_def split: prod.splits)
  qed
qed

lemma funpow_rotate_offsets_distinct:
  "distinct (offsets p) \<Longrightarrow> distinct (offsets ((rotate_piece 1 ^^ i) p))"
  by (induction i) (simp_all add: distinct_offsets_rotate)

lemma funpow_rotate_nonempty:
  assumes "distinct (offsets p)" and "piece_cells p \<noteq> []"
  shows "piece_cells ((rotate_piece 1 ^^ i) p) \<noteq> []"
proof (induction i)
  case 0
  then show ?case using assms(2) by simp
next
  case (Suc i)
  have "distinct (offsets ((rotate_piece 1 ^^ i) p))"
    by (rule funpow_rotate_offsets_distinct [OF assms(1)])
  from rotate_cells [OF this, of 1] Suc show ?case by simp
qed

lemma try_rotation_returns:
  assumes wf: "wf_cells (pit_cells pit)" and ro: "rows_ok pit"
    and len: "length (pit_cols pit) = nat WIDTH"
    and dk: "distinct (map fst (piece_cells piece))" and dist: "distinct (offsets piece)"
    and ne: "piece_cells piece \<noteq> []"
  shows "\<exists>r. try_rotation us pit piece i (Some acc) = Some r"
proof (cases acc)
  case (Inl e)
  then show ?thesis by (simp add: try_rotation_def)
next
  case (Inr best)
  show ?thesis
  proof (cases "Piece_clone piece")
    case (Inl e)
    with Inr show ?thesis by (simp add: try_rotation_def)
  next
    case tmp: (Inr tmpPiece)
    have t: "tmpPiece = piece" by (rule Piece_clone_id [OF dk tmp])
    from findBestPosition_returns [OF wf ro len funpow_rotate_keys_distinct [OF dk]
        funpow_rotate_offsets_distinct [OF dist] funpow_rotate_nonempty [OF dist ne]]
    obtain r where "findBestPosition (us i) pit ((rotate_piece 1 ^^ i) piece) = Some r"
      by blast
    with Inr tmp t show ?thesis
      by (cases r) (simp_all add: try_rotation_def)
  qed
qed

lemma fold_try_rotation_returns:
  assumes wf: "wf_cells (pit_cells pit)" and ro: "rows_ok pit"
    and len: "length (pit_cols pit) = nat WIDTH"
    and dk: "distinct (map fst (piece_cells piece))" and dist: "distinct (offsets piece)"
    and ne: "piece_cells piece \<noteq> []"
  shows "\<exists>r. fold (try_rotation us pit piece) js (Some acc) = Some r"
proof (induction js arbitrary: acc)
  case Nil
  then show ?case by simp
next
  case (Cons j js)
  from try_rotation_returns [OF assms, of us j acc]
  obtain r where "try_rotation us pit piece j (Some acc) = Some r" by blast
  with Cons.IH [of r] show ?case by simp
qed

lemma search_returns:
  assumes wf: "wf_cells (pit_cells pit)" and ro: "rows_ok pit"
    and len: "length (pit_cols pit) = nat WIDTH"
    and dk: "distinct (map fst (piece_cells piece))" and dist: "distinct (offsets piece)"
    and ne: "piece_cells piece \<noteq> []"
  shows "(\<exists>r. findBestPosition u pit piece = Some r)
       \<and> (\<exists>r. findBestPositionRotation us pit piece = Some r)"
proof -
  from fold_try_rotation_returns [OF assms, of us "[0..<4]" "Inr (Infinity, [])"]
  obtain r where "fold (try_rotation us pit piece) [0..<4] (Some (Inr (Infinity, []))) = Some r"
    by blast
  then have "\<exists>r. findBestPositionRotation us pit piece = Some r"
    by (cases r) (auto simp: findBestPositionRotation_def split: prod.splits)
  with findBestPosition_returns [OF assms] show ?thesis by blast
qed

text \<open>
  C7, as stated, fails. Both searches start from the centre of the top row: the piece is
  moved to the left while it fits and one step back, and from there the columns are
  collected while the piece fits. On \<open>tower_pit\<close>, the grid after the eight drops of
  \<open>tower_pieces\<close>, the attacker's \<^verbatim>\<open>u\<close> piece fits neither at the centre, column 5, nor
  at column 6, where the scan then starts: no column is collected, and both searches return
  the score \<^verbatim>\<open>Infinity\<close> with an \<^verbatim>\<open>x\<close> that is \<^verbatim>\<open>undefined\<close>, not a column in
  which the piece fits, although the piece fits in column 1 of the top row.
\<close>

theorem search_returns_no_column_counterexample:
  "drops any_drop tower_pieces new_Pit = Some tower_pit
   \<and> distinct (map fst (pit_cells tower_pit)) \<and> distinct (map fst (piece_cells u_left))
   \<and> findBestPosition 0 tower_pit u_left =
       Some (Inr \<lparr>best_score = Infinity, best_x = None, best_rotation = None\<rparr>)
   \<and> findBestPositionRotation zero_draws tower_pit u_left =
       Some (Inr (Some \<lparr>best_score = Infinity, best_x = None, best_rotation = Some 0\<rparr>))
   \<and> \<not> fits (u_left\<lparr>piece_xy := (5, DEPTH - 1)\<rparr>) tower_pit
   \<and> \<not> fits (u_left\<lparr>piece_xy := (6, DEPTH - 1)\<rparr>) tower_pit
   \<and> fits (u_left\<lparr>piece_xy := (1, DEPTH - 1)\<rparr>) tower_pit"
  by code_simp

text \<open>
  C7, amended. For every grid and every piece (occupancy map and cell map with pairwise
  different keys), whenever \<^verbatim>\<open>findBestPosition\<close> returns a defined \<^verbatim>\<open>x\<close>, the piece
  fits on the given grid at column \<^verbatim>\<open>x\<close> of the top row \<open>DEPTH - 1\<close>, where the search
  places it before the simulated lock; and whenever \<^verbatim>\<open>findBestPositionRotation\<close> returns
  a defined \<^verbatim>\<open>x\<close> with the rotation \<open>i\<close>, the piece rotated \<open>i\<close> times by
  \<^verbatim>\<open>rotate(1)\<close> fits there. Nothing is claimed when the returned \<^verbatim>\<open>x\<close> is
  undefined.
\<close>

theorem search_returns_fitting_column:
  assumes "distinct (map fst (pit_cells pit))" and "distinct (map fst (piece_cells piece))"
  shows "(findBestPosition u pit piece = Some (Inr b) \<longrightarrow> best_x b = Some v \<longrightarrow>
            fits (piece\<lparr>piece_xy := (v, DEPTH - 1)\<rparr>) pit)
         \<and> (findBestPositionRotation us pit piece = Some (Inr (Some b')) \<longrightarrow>
              best_x b' = Some v' \<longrightarrow> best_rotation b' = Some i \<longrightarrow>
              fits (((rotate_piece 1 ^^ i) piece)\<lparr>piece_xy := (v', DEPTH - 1)\<rparr>) pit)"
  using findBestPosition_fits [OF assms] findBestPositionRotation_fits [OF assms] by blast

theorem search_returns_fitting_column_witness:
  "distinct (map fst (pit_cells new_Pit)) \<and> distinct (map fst (piece_cells dash_left))
   \<and> findBestPosition 0 new_Pit dash_left =
       Some (Inr \<lparr>best_score = Num 7, best_x = Some 1, best_rotation = None\<rparr>)
   \<and> fits (dash_left\<lparr>piece_xy := (1, DEPTH - 1)\<rparr>) new_Pit
   \<and> findBestPositionRotation late_draws new_Pit dash_left =
       Some (Inr (Some \<lparr>best_score = Num 7, best_x = Some 0, best_rotation = Some 2\<rparr>))
   \<and> fits (((rotate_piece 1 ^^ 2) dash_left)\<lparr>piece_xy := (0, DEPTH - 1)\<rparr>) new_Pit"
proof -
  have d: "distinct (map fst (pit_cells new_Pit))" "distinct (map fst (piece_cells dash_left))"
    by code_simp+
  have a: "findBestPosition 0 new_Pit dash_left =
       Some (Inr \<lparr>best_score = Num 7, best_x = Some 1, best_rotation = None\<rparr>)"
    by code_simp
  have b: "findBestPositionRotation late_draws new_Pit dash_left =
       Some (Inr (Some \<lparr>best_score = Num 7, best_x = Some 0, best_rotation = Some 2\<rparr>))"
    by code_simp
  have x: "best_x \<lparr>best_score = Num 7, best_x = Some 1, best_rotation = None\<rparr> = Some 1"
    "best_x \<lparr>best_score = Num 7, best_x = Some 0, best_rotation = Some 2\<rparr> = Some 0"
    "best_rotation \<lparr>best_score = Num 7, best_x = Some 0, best_rotation = Some 2\<rparr> = Some 2"
    by simp_all
  from search_returns_fitting_column [OF d, of 0 _ 1 late_draws _ 0 2] a b x
  have "fits (dash_left\<lparr>piece_xy := (1, DEPTH - 1)\<rparr>) new_Pit
      \<and> fits (((rotate_piece 1 ^^ 2) dash_left)\<lparr>piece_xy := (0, DEPTH - 1)\<rparr>) new_Pit"
    by blast
  with d a b show ?thesis by blast
qed

section \<open>Properties of \<^verbatim>\<open>Pit.clone()\<close> on the heap\<close>

lemma fold_clone_entry:
  assumes "cc < length (h_maps h)" and "h_maps h ! cc = acc"
    and "distinct (map fst ms)" and "fst ` set ms \<inter> fst ` set acc = {}"
    and "list_all (\<lambda>(k, a). a < length (h_cells h)) ms"
  shows "fold (clone_entry cc) ms h =
     h\<lparr>h_cells := h_cells h @ map (\<lambda>(k, a). h_cells h ! a) ms,
       h_maps := (h_maps h)[cc := acc @
          zip (map fst ms) [length (h_cells h)..<length (h_cells h) + length ms]]\<rparr>"
  using assms
proof (induction ms arbitrary: h acc)
  case Nil
  have "(h_maps h)[cc := acc] = h_maps h"
    using Nil.prems(2) by (metis list_update_id)
  then show ?case by simp
next
  case (Cons pa ms)
  obtain k a where pa: "pa = (k, a)" by (cases pa)
  let ?h1 = "clone_entry cc pa h"
  have fresh: "k \<notin> fst ` set acc" using Cons.prems(4) pa by auto
  have a: "a < length (h_cells h)" using Cons.prems(5) pa by simp
  have h1: "?h1 = h\<lparr>h_cells := h_cells h @ [h_cells h ! a],
                    h_maps := (h_maps h)[cc := acc @ [(k, length (h_cells h))]]\<rparr>"
    using Cons.prems(2) fresh
    by (simp add: clone_entry_def heap_Cell_clone_def pa update_fresh)
  have h1': "clone_entry cc (k, a) h = h\<lparr>h_cells := h_cells h @ [h_cells h ! a],
                    h_maps := (h_maps h)[cc := acc @ [(k, length (h_cells h))]]\<rparr>"
    using h1 by (simp only: pa)
  have upt: "[length (h_cells h)..<length (h_cells h) + length (pa # ms)] =
      length (h_cells h) # [Suc (length (h_cells h))..<Suc (length (h_cells h)) + length ms]"
    using upt_conv_Cons [of "length (h_cells h)" "length (h_cells h) + length (pa # ms)"]
    by simp
  have p1: "cc < length (h_maps ?h1)" using Cons.prems(1) by (simp add: h1)
  have p2: "h_maps ?h1 ! cc = acc @ [(k, length (h_cells h))]"
    using Cons.prems(1) by (simp add: h1)
  have p3: "distinct (map fst ms)" using Cons.prems(3) by simp
  have p4: "fst ` set ms \<inter> fst ` set (acc @ [(k, length (h_cells h))]) = {}"
    using Cons.prems(3,4) pa by auto
  have p5: "list_all (\<lambda>(k, a). a < length (h_cells ?h1)) ms"
    using Cons.prems(5) by (auto simp: h1 list_all_iff)
  have old: "map (\<lambda>(k, a). h_cells ?h1 ! a) ms = map (\<lambda>(k, a). h_cells h ! a) ms"
    using Cons.prems(5) by (auto simp: h1 list_all_iff nth_append)
  have "fold (clone_entry cc) (pa # ms) h = fold (clone_entry cc) ms ?h1" by simp
  also have "\<dots> = ?h1\<lparr>h_cells := h_cells ?h1 @ map (\<lambda>(k, a). h_cells ?h1 ! a) ms,
       h_maps := (h_maps ?h1)[cc := (acc @ [(k, length (h_cells h))]) @
          zip (map fst ms) [length (h_cells ?h1)..<length (h_cells ?h1) + length ms]]\<rparr>"
    by (rule Cons.IH [OF p1 p2 p3 p4 p5])
  also have "\<dots> = h\<lparr>h_cells := h_cells h @ map (\<lambda>(k, a). h_cells h ! a) (pa # ms),
       h_maps := (h_maps h)[cc := acc @
          zip (map fst (pa # ms)) [length (h_cells h)..<length (h_cells h) + length (pa # ms)]]\<rparr>"
    unfolding old upt by (simp add: h1' pa)
  finally show ?case .
qed

lemma heap_Pit_clone_cloned:
  assumes "wf_pit h this"
  shows "heap_Pit_clone this h = (length (h_pits h), cloned h this)"
proof -
  obtain tc tcols trows where t: "h_pits h ! this = (tc, tcols, trows)"
    by (cases "h_pits h ! this")
  from assms t have b: "this < length (h_pits h)" "tc < length (h_maps h)"
    "tcols < length (h_arrays h)" "trows < length (h_arrays h)"
    "distinct (map fst (h_maps h ! tc))"
    "list_all (\<lambda>(k, a). a < length (h_cells h)) (h_maps h ! tc)"
    by (auto simp: wf_pit_def list_all_iff)
  let ?h5 = "h\<lparr>h_maps := h_maps h @ [[]],
               h_arrays := h_arrays h @ [replicate (nat WIDTH) 0, replicate (nat DEPTH) 0,
                                   h_arrays h ! tcols, h_arrays h ! trows],
               h_pits := h_pits h @
                 [(length (h_maps h), length (h_arrays h) + 2, length (h_arrays h) + 3)]\<rparr>"
  have five: "heap_Pit_clone this h =
     (length (h_pits h), fold (clone_entry (length (h_maps h))) (h_maps h ! tc) ?h5)"
    using b t by (simp add: heap_Pit_clone_def heap_new_Pit_def Let_def nth_append
        eval_nat_numeral)
  have "fold (clone_entry (length (h_maps h))) (h_maps h ! tc) ?h5 =
     ?h5\<lparr>h_cells := h_cells ?h5 @ map (\<lambda>(k, a). h_cells ?h5 ! a) (h_maps h ! tc),
       h_maps := (h_maps ?h5)[length (h_maps h) := [] @
          zip (map fst (h_maps h ! tc))
            [length (h_cells ?h5)..<length (h_cells ?h5) + length (h_maps h ! tc)]]\<rparr>"
    by (rule fold_clone_entry) (use b in simp_all)
  also have "\<dots> = cloned h this"
    by (simp add: cloned_def t)
  finally show ?thesis using five by simp
qed

lemma cloned_pits_this:
  "this < length (h_pits h) \<Longrightarrow> h_pits (cloned h this) ! this = h_pits h ! this"
  by (simp add: cloned_def nth_append split: prod.splits)

lemma cloned_pits_clone:
  "h_pits (cloned h this) ! length (h_pits h) =
     (length (h_maps h), length (h_arrays h) + 2, length (h_arrays h) + 3)"
  by (simp add: cloned_def split: prod.splits)

lemma cloned_arrays:
  "a < length (h_arrays h) \<Longrightarrow> h_arrays (cloned h this) ! a = h_arrays h ! a"
  "h_arrays (cloned h this) ! (length (h_arrays h) + 2) = h_arrays h ! fst (snd (h_pits h ! this))"
  "h_arrays (cloned h this) ! (length (h_arrays h) + 3) = h_arrays h ! snd (snd (h_pits h ! this))"
  "length (h_arrays (cloned h this)) = length (h_arrays h) + 4"
  by (simp_all add: cloned_def nth_append eval_nat_numeral split: prod.splits)

lemma cloned_maps:
  "c < length (h_maps h) \<Longrightarrow> h_maps (cloned h this) ! c = h_maps h ! c"
  "h_maps (cloned h this) ! length (h_maps h) =
     zip (map fst (h_maps h ! fst (h_pits h ! this)))
       [length (h_cells h)..<length (h_cells h) + length (h_maps h ! fst (h_pits h ! this))]"
  "length (h_maps (cloned h this)) = Suc (length (h_maps h))"
  by (simp_all add: cloned_def nth_append split: prod.splits)

lemma cloned_cells:
  "a < length (h_cells h) \<Longrightarrow> h_cells (cloned h this) ! a = h_cells h ! a"
  "i < length (h_maps h ! fst (h_pits h ! this)) \<Longrightarrow>
     h_cells (cloned h this) ! (length (h_cells h) + i) =
       h_cells h ! snd (h_maps h ! fst (h_pits h ! this) ! i)"
  "length (h_cells (cloned h this)) =
     length (h_cells h) + length (h_maps h ! fst (h_pits h ! this))"
  by (simp_all add: cloned_def nth_append case_prod_unfold)

lemma cloned_xys: "h_xys (cloned h this) = h_xys h"
  by (simp add: cloned_def split: prod.splits)

lemma cell_value_cong:
  "h_cells h1 ! a = h_cells h2 ! b \<Longrightarrow> h_xys h1 = h_xys h2 \<Longrightarrow>
     cell_value h1 a = cell_value h2 b"
  by (simp add: cell_value_def)

lemma view_cong:
  assumes "h_pits h1 ! p = h_pits h2 ! q"
    and "h_maps h1 ! fst (h_pits h1 ! p) = h_maps h2 ! fst (h_pits h2 ! q)"
    and "h_arrays h1 ! fst (snd (h_pits h1 ! p)) = h_arrays h2 ! fst (snd (h_pits h2 ! q))"
    and "h_arrays h1 ! snd (snd (h_pits h1 ! p)) = h_arrays h2 ! snd (snd (h_pits h2 ! q))"
    and "\<And>k a. (k, a) \<in> set (h_maps h1 ! fst (h_pits h1 ! p)) \<Longrightarrow>
            cell_value h1 a = cell_value h2 a"
  shows "view h1 p = view h2 q"
  using assms by (auto simp: view_def split: prod.splits)

lemma view_cloned_this:
  assumes "wf_pit h this"
  shows "view (cloned h this) this = view h this"
proof -
  obtain tc tcols trows where t: "h_pits h ! this = (tc, tcols, trows)"
    by (cases "h_pits h ! this")
  from assms t have b: "this < length (h_pits h)" "tc < length (h_maps h)"
    "tcols < length (h_arrays h)" "trows < length (h_arrays h)"
    "list_all (\<lambda>(k, a). a < length (h_cells h)) (h_maps h ! tc)"
    by (auto simp: wf_pit_def list_all_iff)
  show ?thesis
  proof (rule view_cong)
    show "h_pits (cloned h this) ! this = h_pits h ! this"
      using b by (simp add: cloned_pits_this)
    then show "h_maps (cloned h this) ! fst (h_pits (cloned h this) ! this) =
               h_maps h ! fst (h_pits h ! this)"
      using b t by (simp add: cloned_maps)
    show "h_arrays (cloned h this) ! fst (snd (h_pits (cloned h this) ! this)) =
          h_arrays h ! fst (snd (h_pits h ! this))"
      using b t by (simp add: cloned_pits_this cloned_arrays)
    show "h_arrays (cloned h this) ! snd (snd (h_pits (cloned h this) ! this)) =
          h_arrays h ! snd (snd (h_pits h ! this))"
      using b t by (simp add: cloned_pits_this cloned_arrays)
    fix k a
    assume "(k, a) \<in> set (h_maps (cloned h this) ! fst (h_pits (cloned h this) ! this))"
    then have "(k, a) \<in> set (h_maps h ! tc)"
      using b t by (simp add: cloned_pits_this cloned_maps)
    then have "a < length (h_cells h)" using b(5) by (auto simp: list_all_iff)
    then show "cell_value (cloned h this) a = cell_value h a"
      by (intro cell_value_cong) (simp_all add: cloned_cells cloned_xys)
  qed
qed

lemma view_cloned_clone:
  assumes "wf_pit h this"
  shows "view (cloned h this) (length (h_pits h)) = Pit_clone (view h this)"
proof -
  obtain tc tcols trows where t: "h_pits h ! this = (tc, tcols, trows)"
    by (cases "h_pits h ! this")
  from assms t have d: "distinct (map fst (h_maps h ! tc))"
    by (simp add: wf_pit_def)
  let ?ms = "h_maps h ! tc"
  let ?n = "length (h_cells h)"
  have keys: "map fst (pit_cells (view h this)) = map fst ?ms"
    by (simp add: view_def t case_prod_unfold comp_def)
  have cells: "map (\<lambda>(k, a). (k, cell_value (cloned h this) a))
                 (zip (map fst ?ms) [?n..<?n + length ?ms]) =
               map (\<lambda>(k, a). (k, cell_value h a)) ?ms"
  proof (rule nth_equalityI)
    show "length (map (\<lambda>(k, a). (k, cell_value (cloned h this) a))
                 (zip (map fst ?ms) [?n..<?n + length ?ms])) =
          length (map (\<lambda>(k, a). (k, cell_value h a)) ?ms)" by simp
    fix i
    assume "i < length (map (\<lambda>(k, a). (k, cell_value (cloned h this) a))
                 (zip (map fst ?ms) [?n..<?n + length ?ms]))"
    then have i: "i < length ?ms" by simp
    then have "h_cells (cloned h this) ! (?n + i) = h_cells h ! snd (?ms ! i)"
      using cloned_cells(2) [of i h this] by (simp add: t)
    then have "cell_value (cloned h this) (?n + i) = cell_value h (snd (?ms ! i))"
      by (rule cell_value_cong) (simp add: cloned_xys)
    with i show "map (\<lambda>(k, a). (k, cell_value (cloned h this) a))
                 (zip (map fst ?ms) [?n..<?n + length ?ms]) ! i =
          map (\<lambda>(k, a). (k, cell_value h a)) ?ms ! i"
      by (simp add: case_prod_unfold)
  qed
  have "Pit_clone (view h this) = view h this"
    by (rule Pit_clone_id) (simp add: keys d)
  moreover have "view (cloned h this) (length (h_pits h)) = view h this"
    using cells cloned_arrays(2,3) [of h this]
    by (simp add: view_def cloned_pits_clone cloned_maps t)
  ultimately show ?thesis by simp
qed

lemma cloned_clone_addresses:
  assumes "(k, a) \<in> set (h_maps (cloned h this) ! length (h_maps h))"
  shows "length (h_cells h) \<le> a"
proof -
  from assms have "a \<in> set [length (h_cells h)..<
      length (h_cells h) + length (h_maps h ! fst (h_pits h ! this))]"
    unfolding cloned_maps(2) by (rule set_zip_rightD)
  then show ?thesis by simp
qed

lemma mutate_clone_frame:
  assumes wf: "wf_pit h this" and ins: "inside (cloned h this) (length (h_pits h)) w"
    and nc: "\<not> coordinate_write w"
  shows "view (mutate w (cloned h this)) this = view (cloned h this) this"
proof -
  let ?H = "cloned h this"
  obtain tc tcols trows where t: "h_pits h ! this = (tc, tcols, trows)"
    by (cases "h_pits h ! this")
  from wf t have b: "this < length (h_pits h)" "tc < length (h_maps h)"
    "tcols < length (h_arrays h)" "trows < length (h_arrays h)"
    "list_all (\<lambda>(k, a). a < length (h_cells h)) (h_maps h ! tc)"
    by (auto simp: wf_pit_def list_all_iff)
  have pt: "h_pits ?H ! this = (tc, tcols, trows)" using b t by (simp add: cloned_pits_this)
  have mt: "h_maps ?H ! tc = h_maps h ! tc" using b by (simp add: cloned_maps)
  show ?thesis
  proof (cases w)
    case (SetArray a v)
    with ins have "a \<noteq> tcols" "a \<noteq> trows" using b by (auto simp: cloned_pits_clone)
    then show ?thesis by (simp add: SetArray view_def pt cell_value_def)
  next
    case (SetMap a v)
    with ins have "a \<noteq> tc" using b by (auto simp: cloned_pits_clone)
    then show ?thesis by (simp add: SetMap view_def pt cell_value_def)
  next
    case (SetCell a v)
    with ins have "length (h_cells h) \<le> a"
      by (auto simp: cloned_pits_clone dest: cloned_clone_addresses)
    then have "\<And>k a'. (k, a') \<in> set (h_maps h ! tc) \<Longrightarrow> a \<noteq> a'"
      using b(5) by (auto simp: list_all_iff)
    then have "map (\<lambda>(k, a'). (k, cell_value (?H\<lparr>h_cells := (h_cells ?H)[a := v]\<rparr>) a'))
                 (h_maps h ! tc) =
               map (\<lambda>(k, a'). (k, cell_value ?H a')) (h_maps h ! tc)"
      by (intro map_cong) (auto simp: cell_value_def)
    then show ?thesis by (simp add: SetCell view_def pt mt)
  next
    case (SetXY a v)
    with nc show ?thesis by simp
  next
    case (SetPit a v)
    with ins have "a \<noteq> this" using b by auto
    then show ?thesis by (simp add: SetPit view_def cell_value_def)
  qed
qed

lemma mutate_this_frame:
  assumes wf: "wf_pit h this" and ins: "inside (cloned h this) this w"
    and nc: "\<not> coordinate_write w"
  shows "view (mutate w (cloned h this)) (length (h_pits h)) =
         view (cloned h this) (length (h_pits h))"
proof -
  let ?H = "cloned h this"
  obtain tc tcols trows where t: "h_pits h ! this = (tc, tcols, trows)"
    by (cases "h_pits h ! this")
  from wf t have b: "this < length (h_pits h)" "tc < length (h_maps h)"
    "tcols < length (h_arrays h)" "trows < length (h_arrays h)"
    "list_all (\<lambda>(k, a). a < length (h_cells h)) (h_maps h ! tc)"
    by (auto simp: wf_pit_def list_all_iff)
  have pt: "h_pits ?H ! this = (tc, tcols, trows)" using b t by (simp add: cloned_pits_this)
  have mt: "h_maps ?H ! tc = h_maps h ! tc" using b by (simp add: cloned_maps)
  note pc = cloned_pits_clone [of h this]
  show ?thesis
  proof (cases w)
    case (SetArray a v)
    with ins have "a < length (h_arrays h)" using b by (auto simp: pt)
    then have "a \<noteq> length (h_arrays h) + 2" "a \<noteq> length (h_arrays h) + 3" by simp_all
    then show ?thesis using pc by (simp add: SetArray view_def cell_value_def)
  next
    case (SetMap a v)
    with ins have "a \<noteq> length (h_maps h)" using b by (auto simp: pt)
    then show ?thesis using pc by (simp add: SetMap view_def cell_value_def)
  next
    case (SetCell a v)
    with ins have "a < length (h_cells h)"
      using b(5) by (auto simp: pt mt list_all_iff)
    then have "\<And>k a'. (k, a') \<in> set (h_maps ?H ! length (h_maps h)) \<Longrightarrow> a \<noteq> a'"
      by (auto dest: cloned_clone_addresses)
    then have "map (\<lambda>(k, a'). (k, cell_value (?H\<lparr>h_cells := (h_cells ?H)[a := v]\<rparr>) a'))
                 (h_maps ?H ! length (h_maps h)) =
               map (\<lambda>(k, a'). (k, cell_value ?H a')) (h_maps ?H ! length (h_maps h))"
      by (intro map_cong) (auto simp: cell_value_def)
    then show ?thesis using pc by (simp add: SetCell view_def)
  next
    case (SetXY a v)
    with nc show ?thesis by simp
  next
    case (SetPit a v)
    with ins have "a \<noteq> length (h_pits h)" using b by auto
    then show ?thesis by (simp add: SetPit view_def cell_value_def)
  qed
qed

text \<open>
  C9, as stated, fails. The cells of the clone are new objects, but each of them holds the
  coordinate object of the cell it was cloned from. In the heap after \<^verbatim>\<open>clone()\<close> of
  the example pit, the coordinate object of the clone's cell under the key \<open>(0, 0)\<close> is
  inside the clone, and writing \<open>5\<close> to its field \<^verbatim>\<open>y\<close> moves the cell of the
  original as well.
\<close>

theorem clone_shares_coordinates_counterexample:
  "wf_pit example_heap 0
   \<and> heap_Pit_clone 0 example_heap = (1, example_cloned)
   \<and> view example_cloned 0 = view example_heap 0
   \<and> view example_cloned 1 = view example_heap 0
   \<and> pit_cells (view example_heap 0) = cells_at ''-'' ''left'' [(0, 0), (1, 0)]
   \<and> inside example_cloned 1 (SetXY 0 (0, 5))
   \<and> pit_cells (view (mutate (SetXY 0 (0, 5)) example_cloned) 0) =
       [((0, 0), \<lparr>cell_xy = (0, 5), cell_type = ''-'', cell_pieceSet = ''left''\<rparr>),
        ((1, 0), \<lparr>cell_xy = (1, 0), cell_type = ''-'', cell_pieceSet = ''left''\<rparr>)]
   \<and> view (mutate (SetXY 0 (0, 5)) example_cloned) 0 \<noteq> view example_cloned 0"
  by code_simp

text \<open>
  C9, amended. For every well-formed pit of a heap, \<^verbatim>\<open>clone()\<close> leaves the original
  as it was and returns a pit of the same value, and every mutation inside the clone other
  than a write to the fields of a coordinate object (a mutation of the clone itself, of its
  occupancy map, of its column or row array, or of a cell of its map, the assignment of
  another coordinate to the cell included) leaves the value of the original unchanged, and
  every such mutation inside the original leaves the value of the clone unchanged. Nothing
  is claimed for a write to the fields of a coordinate object.
\<close>

theorem clone_is_independent:
  assumes "wf_pit h this" and "heap_Pit_clone this h = (clone, h')"
  shows "view h' this = view h this
       \<and> view h' clone = Pit_clone (view h this)
       \<and> (\<forall>w. inside h' clone w \<longrightarrow> \<not> coordinate_write w \<longrightarrow>
             view (mutate w h') this = view h this)
       \<and> (\<forall>w. inside h' this w \<longrightarrow> \<not> coordinate_write w \<longrightarrow>
             view (mutate w h') clone = Pit_clone (view h this))"
proof -
  from assms have c: "clone = length (h_pits h)" and h': "h' = cloned h this"
    by (simp_all add: heap_Pit_clone_cloned)
  show ?thesis
    unfolding c h'
    using mutate_clone_frame [OF assms(1)] mutate_this_frame [OF assms(1)]
      view_cloned_this [OF assms(1)] view_cloned_clone [OF assms(1)]
    by simp
qed

theorem clone_is_independent_witness:
  "wf_pit example_heap 0
   \<and> heap_Pit_clone 0 example_heap = (1, example_cloned)
   \<and> view example_cloned 1 = view example_heap 0
   \<and> inside example_cloned 1 (SetCell 2 example_cell)
   \<and> \<not> coordinate_write (SetCell 2 example_cell)
   \<and> view (mutate (SetCell 2 example_cell) example_cloned) 1 \<noteq> view example_cloned 1
   \<and> view (mutate (SetCell 2 example_cell) example_cloned) 0 = view example_heap 0
   \<and> inside example_cloned 0 (SetArray 0 (replicate 10 7))
   \<and> \<not> coordinate_write (SetArray 0 (replicate 10 7))
   \<and> view (mutate (SetArray 0 (replicate 10 7)) example_cloned) 0 \<noteq> view example_cloned 0
   \<and> view (mutate (SetArray 0 (replicate 10 7)) example_cloned) 1 = view example_heap 0"
proof -
  have wf: "wf_pit example_heap 0" by code_simp
  have e: "heap_Pit_clone 0 example_heap = (1, example_cloned)"
    by code_simp
  have i: "inside example_cloned 1 (SetCell 2 example_cell)"
    "inside example_cloned 0 (SetArray 0 (replicate 10 7))"
    by code_simp+
  have nc: "\<not> coordinate_write (SetCell 2 example_cell)"
    "\<not> coordinate_write (SetArray 0 (replicate 10 7))"
    by simp_all
  have n: "view (mutate (SetCell 2 example_cell) example_cloned) 1 \<noteq> view example_cloned 1"
    "view (mutate (SetArray 0 (replicate 10 7)) example_cloned) 0 \<noteq> view example_cloned 0"
    by code_simp+
  have p: "Pit_clone (view example_heap 0) = view example_heap 0"
    by code_simp
  from clone_is_independent [OF wf e]
  have v: "view example_cloned 1 = Pit_clone (view example_heap 0)"
    and f: "\<And>w. inside example_cloned 1 w \<Longrightarrow> \<not> coordinate_write w \<Longrightarrow>
              view (mutate w example_cloned) 0 = view example_heap 0"
    and g: "\<And>w. inside example_cloned 0 w \<Longrightarrow> \<not> coordinate_write w \<Longrightarrow>
              view (mutate w example_cloned) 1 = Pit_clone (view example_heap 0)"
    by blast+
  have v': "view example_cloned 1 = view example_heap 0"
    using v by (simp only: p)
  have g': "view (mutate (SetArray 0 (replicate 10 7)) example_cloned) 1 = view example_heap 0"
    using g [OF i(2) nc(2)] by (simp only: p)
  from wf e v' i nc n f [OF i(1) nc(1)] g' show ?thesis by blast
qed

end
